theory Spec2Isabelle
  imports Main "HOL-Library.Word"
begin

unbundle bit_operations_syntax

section \<open>Machine types and constants of the sketch\<close>

text \<open>
  The sketch targets an AVR board (SoftwareSerial, EEPROM, analog pins A0..A5): \<open>uint8_t\<close> and
  \<open>byte\<close> are 8 bits, \<open>int\<close> and \<open>uint16_t\<close> are 16 bits, \<open>unsigned long\<close> is 32 bits.
  Signed overflow of an \<open>int\<close> wraps around, as the AVR instructions do.
\<close>

type_synonym byte = "8 word"
type_synonym cint = "16 word"
type_synonym ulong = "32 word"

definition GET_IMAGE :: byte where "GET_IMAGE = 0x01"
definition IMAGE_TO_TZ :: byte where "IMAGE_TO_TZ = 0x02"
definition SEARCH :: byte where "SEARCH = 0x04"
definition CREATE_MODEL :: byte where "CREATE_MODEL = 0x05"
definition STORE_MODEL :: byte where "STORE_MODEL = 0x06"
definition DELETE_MODEL :: byte where "DELETE_MODEL = 0x0C"
definition VERIFY_PASSWORD :: byte where "VERIFY_PASSWORD = 0x13"
definition GET_TEMPLATE_COUNT :: byte where "GET_TEMPLATE_COUNT = 0x1D"

definition HEADER_H :: byte where "HEADER_H = 0xEF"
definition HEADER_L :: byte where "HEADER_L = 0x01"
definition PACKAGE_ID :: byte where "PACKAGE_ID = 0x01"

definition EEPROM_VOTE1 :: nat where "EEPROM_VOTE1 = 0"
definition EEPROM_VOTE2 :: nat where "EEPROM_VOTE2 = 1"
definition EEPROM_VOTE3 :: nat where "EEPROM_VOTE3 = 2"
definition EEPROM_VOTED_START :: nat where "EEPROM_VOTED_START = 10"
definition MAX_FINGERPRINTS :: nat where "MAX_FINGERPRINTS = 25"

text \<open>
  A store past the end of an array is undefined behaviour in C++; the model makes it a value.
  The parameter and local variable \<open>id\<close> of the sketch is written \<open>id'\<close>.
\<close>

datatype error = OutOfBounds

section \<open>sendCommand\<close>

text \<open>
  The global \<open>uint8_t packet[128]\<close> together with the running index \<open>idx\<close>.
  \<open>put b\<close> is the statement \<open>packet[idx++] = b\<close>. Once a store has gone past the end of the
  array the run stays in the error state.
\<close>

type_synonym pbuf = "byte list \<times> nat"

definition put :: "byte \<Rightarrow> error + pbuf \<Rightarrow> error + pbuf" where
  "put b r = (case r of
       Inl e \<Rightarrow> Inl e
     | Inr (pkt, idx) \<Rightarrow> if idx < length pkt then Inr (pkt[idx := b], idx + 1) else Inl OutOfBounds)"

text \<open>The loop \<open>for (int i = 0; i < dataLen; i++) packet[idx++] = data[i];\<close>\<close>

fun put_all :: "byte list \<Rightarrow> error + pbuf \<Rightarrow> error + pbuf" where
  "put_all [] r = r"
| "put_all (d # ds) r = put_all ds (put d r)"

text \<open>
  \<open>uint16_t checksum = PACKAGE_ID + ((length >> 8) & 0xFF) + (length & 0xFF) + cmd;\<close>
  followed by \<open>checksum += data[i]\<close> for every payload byte.
\<close>

definition checksum :: "cint \<Rightarrow> byte \<Rightarrow> byte list \<Rightarrow> cint" where
  "checksum len cmd data =
     foldl (\<lambda>c d. c + ucast d)
       (ucast PACKAGE_ID + (drop_bit 8 len AND 0xFF) + (len AND 0xFF) + ucast cmd) data"

text \<open>
  \<open>sendCommand packet cmd data\<close>: \<open>packet\<close> is the content of the global array when the
  function is entered, \<open>data\<close> the \<open>dataLen\<close> bytes behind the pointer (\<open>NULL\<close> with length 0
  is the empty list). The result is what \<open>fingerSerial.write(packet, idx)\<close> transmits.
\<close>

definition sendCommand :: "byte list \<Rightarrow> byte \<Rightarrow> byte list \<Rightarrow> error + byte list" where
  "sendCommand packet cmd data =
     (let p = Inr (packet, 0);
          p = put HEADER_H p;
          p = put HEADER_L p;
          p = put 0xFF p;
          p = put 0xFF p;
          p = put 0xFF p;
          p = put 0xFF p;
          p = put PACKAGE_ID p;
          len = (of_nat (length data) + 3 :: cint);
          p = put (ucast (drop_bit 8 len AND 0xFF)) p;
          p = put (ucast (len AND 0xFF)) p;
          p = put cmd p;
          p = put_all data p;
          cks = checksum len cmd data;
          p = put (ucast (drop_bit 8 cks AND 0xFF)) p;
          p = put (ucast (cks AND 0xFF)) p
      in case p of Inl e \<Rightarrow> Inl e | Inr (pkt, idx) \<Rightarrow> Inr (take idx pkt))"

text \<open>The two bytes at the end of a transmitted frame.\<close>

definition checksum_field :: "byte list \<Rightarrow> byte list" where
  "checksum_field frame = drop (length frame - 2) frame"

text \<open>A 16-bit value as two bytes, most significant first.\<close>

definition be16 :: "cint \<Rightarrow> byte list" where
  "be16 v = [ucast (drop_bit 8 v), ucast v]"

text \<open>
  The sum as the data model words it: the two length bytes, the command byte and the payload
  bytes, without the packet-type byte, truncated to 16 bits.
\<close>

definition sum_without_type :: "byte \<Rightarrow> byte list \<Rightarrow> cint" where
  "sum_without_type cmd data =
     (let len = (of_nat (length data + 3) :: cint) in
      of_nat (unat (ucast (drop_bit 8 len) :: byte) + unat (ucast len :: byte) + unat cmd
              + sum_list (map unat data)))"

text \<open>
  The sum with the packet-type byte 0x01 in front: packet type, the two length bytes, the
  command byte and the payload bytes, truncated to 16 bits.
\<close>

definition sum_with_type :: "byte \<Rightarrow> byte list \<Rightarrow> cint" where
  "sum_with_type cmd data =
     (let len = (of_nat (length data + 3) :: cint) in
      of_nat (unat (0x01 :: byte) + unat (ucast (drop_bit 8 len) :: byte) + unat (ucast len :: byte)
              + unat cmd + sum_list (map unat data)))"

text \<open>The bytes that \<open>sendCommand\<close> stores in \<open>packet\<close>, in the order of the stores.\<close>

definition stored_bytes :: "byte \<Rightarrow> byte list \<Rightarrow> byte list" where
  "stored_bytes cmd data =
     (let len = (of_nat (length data) + 3 :: cint); cks = checksum len cmd data in
      [HEADER_H, HEADER_L, 0xFF, 0xFF, 0xFF, 0xFF, PACKAGE_ID,
       ucast (drop_bit 8 len AND 0xFF), ucast (len AND 0xFF), cmd] @ data @
      [ucast (drop_bit 8 cks AND 0xFF), ucast (cks AND 0xFF)])"

section \<open>readResponse\<close>

text \<open>
  One turn of the loop of \<open>readResponse\<close>: the value \<open>millis()\<close> returns in the loop test and,
  when \<open>fingerSerial.available()\<close> holds in that turn, the byte \<open>fingerSerial.read()\<close> returns.
\<close>

record tick =
  now :: ulong
  rx :: "byte option"

text \<open>
  \<open>while (millis() - startTime < timeout)\<close>: the \<open>int\<close> timeout is converted to
  \<open>unsigned long\<close> (sign extension) and the comparison is unsigned. The list holds the turns
  observed so far; \<open>None\<close> means that the loop is still running after them. The caller's array is
  \<open>buffer\<close>; a store behind its end is \<open>Inl OutOfBounds\<close>.
\<close>

fun readLoop :: "ulong \<Rightarrow> cint \<Rightarrow> tick list \<Rightarrow> byte list \<Rightarrow> nat \<Rightarrow> (error + nat \<times> byte list) option" where
  "readLoop startTime timeout [] buffer idx = None"
| "readLoop startTime timeout (t # ts) buffer idx =
     (if now t - startTime < scast timeout then
        (case rx t of
           None \<Rightarrow> readLoop startTime timeout ts buffer idx
         | Some b \<Rightarrow>
             if idx < length buffer then
               (if 32 \<le> idx + 1 then Some (Inr (idx + 1, buffer[idx := b]))
                else readLoop startTime timeout ts (buffer[idx := b]) (idx + 1))
             else Some (Inl OutOfBounds))
      else Some (Inr (idx, buffer)))"

definition readResponse :: "byte list \<Rightarrow> cint \<Rightarrow> ulong \<Rightarrow> tick list \<Rightarrow> (error + nat \<times> byte list) option" where
  "readResponse buffer timeout startTime ticks = readLoop startTime timeout ticks buffer 0"

text \<open>The bytes that arrive in the turns before the timeout has elapsed.\<close>

definition in_time :: "ulong \<Rightarrow> cint \<Rightarrow> tick \<Rightarrow> bool" where
  "in_time startTime timeout t = (now t - startTime < scast timeout)"

definition arrived :: "ulong \<Rightarrow> cint \<Rightarrow> tick list \<Rightarrow> byte list" where
  "arrived startTime timeout ticks = List.map_filter rx (takeWhile (in_time startTime timeout) ticks)"

section \<open>The device and its environment\<close>

text \<open>
  The EEPROM is a byte per address; \<open>vote1\<close>, \<open>vote2\<close>, \<open>vote3\<close> and \<open>totalFingerprints\<close> are
  the global variables of the sketch. The sensor is the environment: \<open>commands\<close> logs the
  arguments of every call of \<open>sendCommand\<close>, oldest first, and \<open>replies k\<close> is the sequence of
  bytes that call number \<open>k\<close> of \<open>readResponse\<close> has stored in its buffer when it returns, so its
  return value \<open>len\<close> is the length of that list and \<open>response[i]\<close> is its element \<open>i\<close>
  (only read below \<open>len\<close>). Display, serial log and delays are left out, and so are the
  loops that discard pending input before a command; the section on \<open>waitForFinger\<close> on the
  serial line has them.
\<close>

record world =
  eeprom :: "nat \<Rightarrow> byte"
  vote1 :: cint
  vote2 :: cint
  vote3 :: cint
  totalFingerprints :: cint
  commands :: "(byte \<times> byte list) list"
  replies :: "nat \<Rightarrow> byte list"
  nread :: nat

definition call_sendCommand :: "byte \<Rightarrow> byte list \<Rightarrow> world \<Rightarrow> world" where
  "call_sendCommand cmd data w = w\<lparr>commands := commands w @ [(cmd, data)]\<rparr>"

definition call_readResponse :: "world \<Rightarrow> byte list \<times> world" where
  "call_readResponse w = (replies w (nread w), w\<lparr>nread := nread w + 1\<rparr>)"

section \<open>Sensor operations\<close>

text \<open>
  The loop of \<open>waitForFinger\<close>; both the branch for confirmation code 0x02 and the fall-through
  decrement \<open>timeout\<close> once and go round again.
\<close>

function waitLoop :: "cint \<Rightarrow> world \<Rightarrow> bool \<times> world" where
  "waitLoop timeout w =
     (if 0 <s timeout then
        (let w1 = call_sendCommand GET_IMAGE [] w;
             (response, w2) = call_readResponse w1
         in if 12 \<le> length response then
              (if response ! 9 = 0x00 then (True, w2)
               else if response ! 9 = 0x02 then waitLoop (timeout - 1) w2
               else waitLoop (timeout - 1) w2)
            else waitLoop (timeout - 1) w2)
      else (False, w))"
  by pat_completeness auto
termination
proof (relation "measure (\<lambda>(timeout, w). nat (sint timeout))")
  show "wf (measure (\<lambda>(timeout :: cint, w :: world). nat (sint timeout)))"
    by simp
next
  have dec: "nat (sint (timeout - 1)) < nat (sint timeout)" if "0 <s timeout" for timeout :: cint
  proof -
    from that have pos: "0 < sint timeout" by (simp add: word_sless_alt)
    have "sint timeout < 2 ^ 15" using sint_lt [of timeout] by simp
    with pos have "sint (timeout - 1) = sint timeout - 1"
      by (simp add: sint_word_ariths signed_take_bit_int_eq_self)
    with pos show ?thesis by simp
  qed
  fix timeout :: cint and w y :: world
  assume "0 <s timeout"
  then have "nat (sint (timeout - 1)) < nat (sint timeout)" by (rule dec)
  then show "((timeout - 1, y), timeout, w) \<in> measure (\<lambda>(timeout, w). nat (sint timeout))"
    by (simp del: zless_nat_conj)
  then show "((timeout - 1, y), timeout, w) \<in> measure (\<lambda>(timeout, w). nat (sint timeout))" .
  then show "((timeout - 1, y), timeout, w) \<in> measure (\<lambda>(timeout, w). nat (sint timeout))" .
qed

declare waitLoop.simps [simp del]

definition waitForFinger :: "cint \<Rightarrow> world \<Rightarrow> bool \<times> world" where
  "waitForFinger timeoutSeconds w = waitLoop (timeoutSeconds * 10) w"

section \<open>waitForFinger on the serial line\<close>

text \<open>
  The loop \<open>while (fingerSerial.available()) fingerSerial.read();\<close> that discards pending input.
  The list holds what \<open>available()\<close> answers in the turns observed so far; the result is the
  number of bytes read and thrown away, \<open>None\<close> when the loop is still running after them.
\<close>

fun discard :: "bool list \<Rightarrow> nat option" where
  "discard [] = None"
| "discard (a # as) = (if a then map_option Suc (discard as) else Some 0)"

text \<open>
  What one turn of the loop of \<open>waitForFinger\<close> meets on the line: the answers of
  \<open>available()\<close> in its own discard loop and in the one at the start of \<open>sendCommand\<close>, the
  content of the local array \<open>response[32]\<close> before the call of \<open>readResponse\<close>, the value of
  \<open>millis()\<close> when that call starts and the turns of its loop.
\<close>

record turn =
  avail_wait :: "bool list"
  avail_send :: "bool list"
  stale :: "byte list"
  started :: ulong
  observed :: "tick list"

text \<open>
  The loop of \<open>waitForFinger\<close> with every loop it runs inside: \<open>env k\<close> is what turn \<open>k\<close>
  meets. \<open>None\<close> means that the function has not returned after what was observed; the result
  is the value returned and the number of turns made. The frame that \<open>sendCommand\<close> builds and
  writes is not part of this model.
\<close>

function pollLoop :: "cint \<Rightarrow> (nat \<Rightarrow> turn) \<Rightarrow> nat \<Rightarrow> (error + bool \<times> nat) option" where
  "pollLoop timeout env k =
     (if 0 <s timeout then
        (case discard (avail_wait (env k)) of
           None \<Rightarrow> None
         | Some n1 \<Rightarrow>
             (case discard (avail_send (env k)) of
                None \<Rightarrow> None
              | Some n2 \<Rightarrow>
                  (case readResponse (stale (env k)) 1000 (started (env k)) (observed (env k)) of
                     None \<Rightarrow> None
                   | Some (Inl e) \<Rightarrow> Some (Inl e)
                   | Some (Inr (len, response)) \<Rightarrow>
                       if 12 \<le> len then
                         (if response ! 9 = 0x00 then Some (Inr (True, k + 1))
                          else if response ! 9 = 0x02 then pollLoop (timeout - 1) env (k + 1)
                          else pollLoop (timeout - 1) env (k + 1))
                       else pollLoop (timeout - 1) env (k + 1))))
      else Some (Inr (False, k)))"
  by pat_completeness auto
termination
proof -
  have dec: "nat (sint (timeout - 1)) < nat (sint timeout)" if "0 <s timeout" for timeout :: cint
  proof -
    from that have pos: "0 < sint timeout" by (simp add: word_sless_alt)
    have "sint timeout < 2 ^ 15" using sint_lt [of timeout] by simp
    with pos have "sint (timeout - 1) = sint timeout - 1"
      by (simp add: sint_word_ariths signed_take_bit_int_eq_self)
    with pos show ?thesis by simp
  qed
  show ?thesis
  proof (relation "measure (\<lambda>(timeout, env, k). nat (sint timeout))", goal_cases)
    case 1
    show ?case by simp
  next
    case (2 timeout env k)
    with dec [of timeout] show ?case by (simp del: zless_nat_conj)
  next
    case (3 timeout env k)
    with dec [of timeout] show ?case by (simp del: zless_nat_conj)
  next
    case (4 timeout env k)
    with dec [of timeout] show ?case by (simp del: zless_nat_conj)
  qed
qed

declare pollLoop.simps [simp del]

definition waitForFinger_serial :: "cint \<Rightarrow> (nat \<Rightarrow> turn) \<Rightarrow> (error + bool \<times> nat) option" where
  "waitForFinger_serial timeoutSeconds env = pollLoop (timeoutSeconds * 10) env 0"

text \<open>The bytes that \<open>readResponse\<close> stores in a turn: the first 32 that arrive in time.\<close>

definition answer :: "turn \<Rightarrow> byte list" where
  "answer t = take 32 (arrived (started t) 1000 (observed t))"

text \<open>
  A turn in which every loop comes to its end within what was observed: both discard loops
  find the line idle, and \<open>readResponse\<close>, called with the array of 32 bytes, sees 32 bytes
  arrive or the timeout of 1000 ms elapse.
\<close>

definition settles :: "turn \<Rightarrow> bool" where
  "settles t \<longleftrightarrow>
     False \<in> set (avail_wait t) \<and> False \<in> set (avail_send t) \<and> length (stale t) = 32
     \<and> (32 \<le> length (arrived (started t) 1000 (observed t))
        \<or> (\<exists>x \<in> set (observed t). \<not> in_time (started t) 1000 x))"

section \<open>Further sensor operations\<close>

definition checkFinger :: "world \<Rightarrow> bool \<times> world" where
  "checkFinger w =
     (let w1 = call_sendCommand GET_IMAGE [] w;
          (response, w2) = call_readResponse w1
      in (12 \<le> length response \<and> response ! 9 = 0x00, w2))"

definition imageToTemplate :: "byte \<Rightarrow> world \<Rightarrow> bool \<times> world" where
  "imageToTemplate bufferID w =
     (let w1 = call_sendCommand IMAGE_TO_TZ [bufferID] w;
          (response, w2) = call_readResponse w1
      in if 12 \<le> length response then (response ! 9 = 0x00, w2) else (False, w2))"

definition createModel :: "world \<Rightarrow> bool \<times> world" where
  "createModel w =
     (let w1 = call_sendCommand CREATE_MODEL [] w;
          (response, w2) = call_readResponse w1
      in (12 \<le> length response \<and> response ! 9 = 0x00, w2))"

definition storeModel :: "cint \<Rightarrow> world \<Rightarrow> bool \<times> world" where
  "storeModel id' w =
     (let w1 = call_sendCommand STORE_MODEL [0x01, ucast (drop_bit 8 id'), ucast (id' AND 0xFF)] w;
          (response, w2) = call_readResponse w1
      in (12 \<le> length response \<and> response ! 9 = 0x00, w2))"

definition verifyPassword :: "world \<Rightarrow> bool \<times> world" where
  "verifyPassword w =
     (let w1 = call_sendCommand VERIFY_PASSWORD [0x00, 0x00, 0x00, 0x00] w;
          (response, w2) = call_readResponse w1
      in (12 \<le> length response \<and> response ! 9 = 0x00, w2))"

definition getTemplateCount :: "world \<Rightarrow> cint \<times> world" where
  "getTemplateCount w =
     (let w1 = call_sendCommand GET_TEMPLATE_COUNT [] w;
          (response, w2) = call_readResponse w1
      in if 14 \<le> length response \<and> response ! 9 = 0x00
         then (push_bit 8 (ucast (response ! 10)) OR ucast (response ! 11), w2)
         else (0, w2))"

section \<open>Resets\<close>

text \<open>The body of the loop of \<open>resetVotesOnly\<close> for slot \<open>i\<close>.\<close>

definition clearVoted :: "nat \<Rightarrow> (nat \<Rightarrow> byte) \<Rightarrow> (nat \<Rightarrow> byte)" where
  "clearVoted i e =
     (let currentVal = e (EEPROM_VOTED_START + i) in
      if currentVal \<noteq> 0xFF
      then (let idOnly = currentVal AND 0x7F in e(EEPROM_VOTED_START + i := idOnly))
      else e)"

definition resetVotesOnly :: "world \<Rightarrow> world" where
  "resetVotesOnly w =
     (let e = eeprom w;
          e = e(EEPROM_VOTE1 := 0);
          e = e(EEPROM_VOTE2 := 0);
          e = e(EEPROM_VOTE3 := 0);
          e = fold clearVoted [0..<MAX_FINGERPRINTS] e
      in w\<lparr>eeprom := e, vote1 := 0, vote2 := 0, vote3 := 0\<rparr>)"

definition resetSystem :: "world \<Rightarrow> world" where
  "resetSystem w =
     (let e = eeprom w;
          e = e(EEPROM_VOTE1 := 0);
          e = e(EEPROM_VOTE2 := 0);
          e = e(EEPROM_VOTE3 := 0);
          e = fold (\<lambda>i e. e(EEPROM_VOTED_START + i := 0xFF)) [0..<MAX_FINGERPRINTS] e
      in w\<lparr>eeprom := e, vote1 := 0, vote2 := 0, vote3 := 0\<rparr>)"

section \<open>Voting\<close>

text \<open>
  The loop of \<open>verifyAndVote\<close> that sets \<open>alreadyVoted\<close>, from slot \<open>i\<close> on. The byte read from
  the EEPROM is promoted to \<open>int\<close> before it is compared with \<open>matchID | 0x80\<close>.
\<close>

function alreadyVoted :: "cint \<Rightarrow> nat \<Rightarrow> (nat \<Rightarrow> byte) \<Rightarrow> bool" where
  "alreadyVoted matchID i e =
     (if i < MAX_FINGERPRINTS then
        (if ucast (e (EEPROM_VOTED_START + i)) = (matchID OR 0x80) then True
         else alreadyVoted matchID (i + 1) e)
      else False)"
  by pat_completeness auto
termination
  by (relation "measure (\<lambda>(matchID, i, e). MAX_FINGERPRINTS - i)") auto

declare alreadyVoted.simps [simp del]

text \<open>\<open>markAsVoted\<close>, from slot \<open>i\<close> on: the first slot that holds \<open>id\<close> gets the high bit.\<close>

function markLoop :: "cint \<Rightarrow> nat \<Rightarrow> (nat \<Rightarrow> byte) \<Rightarrow> (nat \<Rightarrow> byte)" where
  "markLoop id' i e =
     (if i < MAX_FINGERPRINTS then
        (let storedVal = e (EEPROM_VOTED_START + i) in
         if ucast storedVal = id' then e(EEPROM_VOTED_START + i := ucast (id' OR 0x80))
         else markLoop id' (i + 1) e)
      else e)"
  by pat_completeness auto
termination
  by (relation "measure (\<lambda>(id', i, e). MAX_FINGERPRINTS - i)") auto

declare markLoop.simps [simp del]

definition markAsVoted :: "cint \<Rightarrow> world \<Rightarrow> world" where
  "markAsVoted id' w = w\<lparr>eeprom := markLoop id' 0 (eeprom w)\<rparr>"

text \<open>
  One turn of the loop of \<open>castVote\<close> reads the three candidate buttons in order
  (\<open>True\<close> is \<open>LOW\<close>, pressed). The list holds the turns that begin before the 15 seconds
  are over; when it is used up, \<open>millis() - startTime < 15000\<close> fails and the vote times out.
\<close>

record candidates =
  cand1 :: bool
  cand2 :: bool
  cand3 :: bool

datatype vote_outcome =
    FingerTimeout
  | ScanError
  | NotAuthorized
  | AlreadyVoted cint
  | VoteRecorded nat
  | VoteTimeout

fun castVote :: "cint \<Rightarrow> candidates list \<Rightarrow> world \<Rightarrow> vote_outcome \<times> world" where
  "castVote voterID [] w = (VoteTimeout, w)"
| "castVote voterID (b # bs) w =
     (if cand1 b then
        (let w = w\<lparr>vote1 := vote1 w + 1\<rparr>;
             w = w\<lparr>eeprom := (eeprom w)(EEPROM_VOTE1 := ucast (vote1 w))\<rparr>;
             w = markAsVoted voterID w
         in (VoteRecorded 1, w))
      else if cand2 b then
        (let w = w\<lparr>vote2 := vote2 w + 1\<rparr>;
             w = w\<lparr>eeprom := (eeprom w)(EEPROM_VOTE2 := ucast (vote2 w))\<rparr>;
             w = markAsVoted voterID w
         in (VoteRecorded 2, w))
      else if cand3 b then
        (let w = w\<lparr>vote3 := vote3 w + 1\<rparr>;
             w = w\<lparr>eeprom := (eeprom w)(EEPROM_VOTE3 := ucast (vote3 w))\<rparr>;
             w = markAsVoted voterID w
         in (VoteRecorded 3, w))
      else castVote voterID bs w)"

definition verifyAndVote :: "candidates list \<Rightarrow> world \<Rightarrow> vote_outcome \<times> world" where
  "verifyAndVote presses w =
     (let (finger, w) = waitForFinger 15 w in
      if \<not> finger then (FingerTimeout, w)
      else
        let (templ, w) = imageToTemplate 1 w in
        if \<not> templ then (ScanError, w)
        else
          let w = call_sendCommand SEARCH [0x01, 0x00, 0x00, 0x00, 0x7F] w;
              (response, w) = call_readResponse w
          in if 16 \<le> length response \<and> response ! 9 = 0x00 then
               (let matchID = (push_bit 8 (ucast (response ! 10)) OR ucast (response ! 11) :: cint)
                in if alreadyVoted matchID 0 (eeprom w) then (AlreadyVoted matchID, w)
                   else castVote matchID presses w)
             else (NotAuthorized, w))"

section \<open>Selecting an ID\<close>

text \<open>
  One turn of the selection loops of \<open>enrollFingerprint\<close> and \<open>deleteByID\<close> reads UP, DOWN,
  ENROLL and DELETE (\<open>True\<close> is \<open>LOW\<close>, pressed). The loops are \<open>while (true)\<close>: \<open>None\<close> means
  that the loop is still running after the turns of the list.
\<close>

record navigation =
  btn_up :: bool
  btn_down :: bool
  btn_enroll :: bool
  btn_delete :: bool

datatype selection = Chosen cint | Cancelled

definition step_id :: "navigation \<Rightarrow> cint \<Rightarrow> cint" where
  "step_id b id' =
     (let id' = (if btn_up b then (let id' = id' + 1 in if of_nat MAX_FINGERPRINTS <s id' then 1 else id')
                else id');
          id' = (if btn_down b then (let id' = id' - 1 in if id' <s 1 then of_nat MAX_FINGERPRINTS else id')
                else id')
      in id')"

fun enrollSelect :: "cint \<Rightarrow> navigation list \<Rightarrow> selection option" where
  "enrollSelect id' [] = None"
| "enrollSelect id' (b # bs) =
     (let id' = step_id b id' in
      if btn_enroll b then Some (Chosen id')
      else if btn_delete b then Some Cancelled
      else enrollSelect id' bs)"

fun deleteSelect :: "cint \<Rightarrow> navigation list \<Rightarrow> selection option" where
  "deleteSelect id' [] = None"
| "deleteSelect id' (b # bs) =
     (let id' = step_id b id' in
      if btn_delete b then Some (Chosen id')
      else if btn_enroll b then Some Cancelled
      else deleteSelect id' bs)"

section \<open>Deleting\<close>

text \<open>
  The loop of \<open>deleteByID\<close> that removes the ID from the registry, from slot \<open>i\<close> on: the first
  slot that holds \<open>id\<close> or \<open>id | 0x80\<close> becomes 0xFF.
\<close>

function releaseLoop :: "cint \<Rightarrow> nat \<Rightarrow> (nat \<Rightarrow> byte) \<Rightarrow> (nat \<Rightarrow> byte)" where
  "releaseLoop id' i e =
     (if i < MAX_FINGERPRINTS then
        (let storedVal = e (EEPROM_VOTED_START + i) in
         if ucast storedVal = id' \<or> ucast storedVal = (id' OR 0x80)
         then e(EEPROM_VOTED_START + i := 0xFF)
         else releaseLoop id' (i + 1) e)
      else e)"
  by pat_completeness auto
termination
  by (relation "measure (\<lambda>(id', i, e). MAX_FINGERPRINTS - i)") auto

declare releaseLoop.simps [simp del]

datatype delete_outcome = DeleteCancelled | Deleted cint | DeleteFailed

text \<open>\<open>deleteByID\<close> from the line \<open>lcd.print("Deleting ID:")\<close> on, for the selected \<open>id\<close>.\<close>

definition deleteSelected :: "cint \<Rightarrow> world \<Rightarrow> delete_outcome \<times> world" where
  "deleteSelected id' w =
     (let w = call_sendCommand DELETE_MODEL [ucast (drop_bit 8 id'), ucast (id' AND 0xFF), 0x00, 0x01] w;
          (response, w) = call_readResponse w;
          (outcome, w) =
            (if 12 \<le> length response \<and> response ! 9 = 0x00
             then (Deleted id', w\<lparr>eeprom := releaseLoop id' 0 (eeprom w)\<rparr>)
             else (DeleteFailed, w));
          (n, w) = getTemplateCount w
      in (outcome, w\<lparr>totalFingerprints := n\<rparr>))"

definition deleteByID :: "navigation list \<Rightarrow> world \<Rightarrow> (delete_outcome \<times> world) option" where
  "deleteByID buttons w =
     (case deleteSelect 1 buttons of
        None \<Rightarrow> None
      | Some Cancelled \<Rightarrow> Some (DeleteCancelled, w)
      | Some (Chosen id') \<Rightarrow> Some (deleteSelected id' w))"

section \<open>Enrolling\<close>

text \<open>
  The loop at the end of \<open>enrollFingerprint\<close> that stores the ID as "not voted", from slot \<open>i\<close>
  on: the first slot that reads 0xFF gets \<open>id\<close> (truncated to a byte by \<open>EEPROM.write\<close>).
\<close>

function allocateLoop :: "cint \<Rightarrow> nat \<Rightarrow> (nat \<Rightarrow> byte) \<Rightarrow> (nat \<Rightarrow> byte)" where
  "allocateLoop id' i e =
     (if i < MAX_FINGERPRINTS then
        (if e (EEPROM_VOTED_START + i) = 0xFF then e(EEPROM_VOTED_START + i := ucast id')
         else allocateLoop id' (i + 1) e)
      else e)"
  by pat_completeness auto
termination
  by (relation "measure (\<lambda>(id', i, e). MAX_FINGERPRINTS - i)") auto

declare allocateLoop.simps [simp del]

datatype enroll_outcome =
    EnrollCancelled
  | EnrollTimeout
  | EnrollFailed
  | RemoveFinger
  | Mismatch
  | StoreFailed
  | EnrollSuccess cint

text \<open>
  \<open>enrollFingerprint\<close> from the line \<open>lcd.print("Processing...")\<close> on, after both captures
  have succeeded. Whatever the loop over the slots did, the display then shows "SUCCESS!".
\<close>

definition enrollStore :: "cint \<Rightarrow> world \<Rightarrow> enroll_outcome \<times> world" where
  "enrollStore id' w =
     (let (created, w) = createModel w in
      if \<not> created then (Mismatch, w)
      else
        let (stored, w) = storeModel id' w in
        if \<not> stored then (StoreFailed, w)
        else
          let w = w\<lparr>eeprom := allocateLoop id' 0 (eeprom w)\<rparr>;
              (n, w) = getTemplateCount w
          in (EnrollSuccess id', w\<lparr>totalFingerprints := n\<rparr>))"

text \<open>
  The loop \<open>while (checkFinger()) delay(100);\<close> runs as long as the sensor reports a finger:
  \<open>None\<close> when it never ends.
\<close>

partial_function (option) untilRemoved :: "world \<Rightarrow> world option" where
  "untilRemoved w =
     (let (finger, w) = checkFinger w in
      if finger then untilRemoved w else Some w)"

declare untilRemoved.simps [code]

text \<open>
  The two loops \<open>while (attempts < 3 && !success)\<close> of \<open>enrollFingerprint\<close>: the first with
  \<open>waitForFinger(10)\<close> and \<open>imageToTemplate(1)\<close>, the second with \<open>waitForFinger(15)\<close> and
  \<open>imageToTemplate(2)\<close>. They end with \<open>success\<close> set, with the return after "Timeout!", or
  with three failed attempts, after which the function returns with "Failed!".
\<close>

datatype capture = Captured | CaptureTimeout | CaptureFailed

function captureLoop :: "byte \<Rightarrow> cint \<Rightarrow> nat \<Rightarrow> world \<Rightarrow> (capture \<times> world) option" where
  "captureLoop bufferID timeoutSeconds attempts w =
     (if attempts < 3 then
        (let (finger, w) = waitForFinger timeoutSeconds w in
         if finger then
           (let (templ, w) = imageToTemplate bufferID w in
            if templ then Some (Captured, w)
            else (case untilRemoved w of
                    None \<Rightarrow> None
                  | Some w \<Rightarrow> captureLoop bufferID timeoutSeconds (attempts + 1) w))
         else Some (CaptureTimeout, w))
      else Some (CaptureFailed, w))"
  by pat_completeness auto
termination
  by (relation "measure (\<lambda>(bufferID, timeoutSeconds, attempts, w). 3 - attempts)") auto

declare captureLoop.simps [simp del]

text \<open>The loop \<open>while (checkFinger() && removeAttempts < 50)\<close>; \<open>checkFinger\<close> is called first.\<close>

function removeLoop :: "nat \<Rightarrow> world \<Rightarrow> nat \<times> world" where
  "removeLoop removeAttempts w =
     (let (finger, w) = checkFinger w in
      if finger \<and> removeAttempts < 50 then removeLoop (removeAttempts + 1) w
      else (removeAttempts, w))"
  by pat_completeness auto
termination
  by (relation "measure (\<lambda>(removeAttempts, w). 50 - removeAttempts)") auto

declare removeLoop.simps [simp del]

text \<open>
  \<open>enrollFingerprint\<close> as a whole. \<open>None\<close> means that one of its unbounded loops, the
  selection of the ID or the wait for the finger to be removed, is still running.
\<close>

definition enrollFingerprint :: "navigation list \<Rightarrow> world \<Rightarrow> (enroll_outcome \<times> world) option" where
  "enrollFingerprint buttons w =
     (case enrollSelect 1 buttons of
        None \<Rightarrow> None
      | Some Cancelled \<Rightarrow> Some (EnrollCancelled, w)
      | Some (Chosen id') \<Rightarrow>
          (case captureLoop 1 10 0 w of
             None \<Rightarrow> None
           | Some (CaptureTimeout, w) \<Rightarrow> Some (EnrollTimeout, w)
           | Some (CaptureFailed, w) \<Rightarrow> Some (EnrollFailed, w)
           | Some (Captured, w) \<Rightarrow>
               (let (removeAttempts, w) = removeLoop 0 w in
                if 50 \<le> removeAttempts then Some (RemoveFinger, w)
                else
                  (case captureLoop 2 15 0 w of
                     None \<Rightarrow> None
                   | Some (CaptureTimeout, w) \<Rightarrow> Some (EnrollTimeout, w)
                   | Some (CaptureFailed, w) \<Rightarrow> Some (EnrollFailed, w)
                   | Some (Captured, w) \<Rightarrow> Some (enrollStore id' w)))))"

section \<open>Example states\<close>

text \<open>
  Three voters are enrolled: ID 5 in slot 0 and ID 9 in slot 2 have voted, ID 7 in slot 1 has
  not. The sensor does not answer.
\<close>

definition voted_world :: world where
  "voted_world =
     \<lparr>eeprom = (\<lambda>a. 0xFF)(0 := 2, 1 := 1, 10 := 0x85, 11 := 0x07, 12 := 0x89),
      vote1 = 2, vote2 = 1, vote3 = 0, totalFingerprints = 3, commands = [],
      replies = (\<lambda>k. []), nread = 0\<rparr>"

section \<open>Notions used to state the properties\<close>

text \<open>
  What \<open>verifyAndVote\<close> obtains from the sensor before it looks at the registry: the finger is
  detected, the template is made and the search answers with at least 16 bytes and
  confirmation code 0x00. The result is the matched ID and the state at that point.
\<close>

definition sensor_match :: "world \<Rightarrow> (cint \<times> world) option" where
  "sensor_match w =
     (let (finger, w) = waitForFinger 15 w;
          (templ, w) = imageToTemplate 1 w;
          w = call_sendCommand SEARCH [0x01, 0x00, 0x00, 0x00, 0x7F] w;
          (response, w) = call_readResponse w
      in if finger \<and> templ \<and> 16 \<le> length response \<and> response ! 9 = 0x00
         then Some (push_bit 8 (ucast (response ! 10)) OR ucast (response ! 11), w)
         else None)"

text \<open>
  The selection the voter makes: the first turn in which a candidate button is pressed decides,
  and in that turn button 1 goes before button 2 and button 2 before button 3. \<open>None\<close> when no
  button is pressed in any turn before the 15 seconds are over.
\<close>

definition selected :: "candidates list \<Rightarrow> nat option" where
  "selected presses =
     (case dropWhile (\<lambda>b. \<not> cand1 b \<and> \<not> cand2 b \<and> \<not> cand3 b) presses of
        [] \<Rightarrow> None
      | b # rest \<Rightarrow> Some (if cand1 b then 1 else if cand2 b then 2 else 3))"

text \<open>Further votes cast for the same voter, one call of \<open>castVote\<close> after the other.\<close>

fun revote :: "cint \<Rightarrow> candidates list list \<Rightarrow> world \<Rightarrow> world" where
  "revote voterID [] w = w"
| "revote voterID (presses # rest) w = revote voterID rest (snd (castVote voterID presses w))"

text \<open>The 25 registry slots in order, and the IDs (low seven bits) of the slots that are not Empty.\<close>

definition slots :: "(nat \<Rightarrow> byte) \<Rightarrow> byte list" where
  "slots e = map (\<lambda>i. e (EEPROM_VOTED_START + i)) [0..<MAX_FINGERPRINTS]"

definition enrolled_ids :: "(nat \<Rightarrow> byte) \<Rightarrow> byte list" where
  "enrolled_ids e = map (\<lambda>v. v AND 0x7F) (filter (\<lambda>v. v \<noteq> 0xFF) (slots e))"

definition unique_ids :: "(nat \<Rightarrow> byte) \<Rightarrow> bool" where
  "unique_ids e = distinct (enrolled_ids e)"

text \<open>
  The registry operations of the specification: \<open>allocate\<close> is the loop at the end of a
  successful enrollment, \<open>release\<close> the loop of a confirmed deletion.
\<close>

datatype registry_op = Allocate cint | Release cint

fun apply_op :: "registry_op \<Rightarrow> (nat \<Rightarrow> byte) \<Rightarrow> (nat \<Rightarrow> byte)" where
  "apply_op (Allocate id') e = allocateLoop id' 0 e"
| "apply_op (Release id') e = releaseLoop id' 0 e"

definition run_ops :: "registry_op list \<Rightarrow> (nat \<Rightarrow> byte) \<Rightarrow> (nat \<Rightarrow> byte)" where
  "run_ops ops e = fold apply_op ops e"

text \<open>
  A run in which every \<open>allocate\<close> is for an ID from 1 to 25 that no slot holds at that
  moment, with or without the voted bit.
\<close>

fun fresh_run :: "registry_op list \<Rightarrow> (nat \<Rightarrow> byte) \<Rightarrow> bool" where
  "fresh_run [] e = True"
| "fresh_run (Allocate id' # ops) e =
     (1 \<le> unat id' \<and> unat id' \<le> 25 \<and> ucast id' \<notin> set (enrolled_ids e)
      \<and> fresh_run ops (apply_op (Allocate id') e))"
| "fresh_run (Release id' # ops) e = fresh_run ops (apply_op (Release id') e)"

text \<open>
  The sensor answers every command with an acknowledgement of 12 bytes and confirmation code
  0x00, except that the third answer is a search result of 16 bytes: ID 5, score 100.
\<close>

definition ack :: "byte list" where
  "ack = [0xEF, 0x01, 0xFF, 0xFF, 0xFF, 0xFF, 0x07, 0x00, 0x03, 0x00, 0x00, 0x0A]"

definition found5 :: "byte list" where
  "found5 = [0xEF, 0x01, 0xFF, 0xFF, 0xFF, 0xFF, 0x07, 0x00, 0x07, 0x00,
             0x00, 0x05, 0x00, 0x64, 0x00, 0x77]"

definition matching5 :: "world \<Rightarrow> world" where
  "matching5 w = w\<lparr>replies := (\<lambda>k. if k = 2 then found5 else ack)\<rparr>"

text \<open>The same sensor with a search result for ID 14, score 100.\<close>

definition found14 :: "byte list" where
  "found14 = [0xEF, 0x01, 0xFF, 0xFF, 0xFF, 0xFF, 0x07, 0x00, 0x07, 0x00,
              0x00, 0x0E, 0x00, 0x64, 0x00, 0x80]"

definition matching14 :: "world \<Rightarrow> world" where
  "matching14 w = w\<lparr>replies := (\<lambda>k. if k = 2 then found14 else ack)\<rparr>"

text \<open>A device whose EEPROM is erased: every cell reads 0xFF, the tallies were loaded as 0.\<close>

definition factory_world :: world where
  "factory_world =
     \<lparr>eeprom = (\<lambda>a. 0xFF), vote1 = 0, vote2 = 0, vote3 = 0, totalFingerprints = 0,
      commands = [], replies = (\<lambda>k. []), nread = 0\<rparr>"

text \<open>Turns of a selection loop with one button pressed.\<close>

definition press_up :: navigation where
  "press_up = \<lparr>btn_up = True, btn_down = False, btn_enroll = False, btn_delete = False\<rparr>"

definition press_enroll :: navigation where
  "press_enroll = \<lparr>btn_up = False, btn_down = False, btn_enroll = True, btn_delete = False\<rparr>"

definition press_delete :: navigation where
  "press_delete = \<lparr>btn_up = False, btn_down = False, btn_enroll = False, btn_delete = True\<rparr>"

text \<open>
  A sensor that lets every enrollment succeed: it acknowledges every command, and in each run
  of eight exchanges the third one, the check that the finger was removed, gets no answer.
\<close>

definition enrolling :: "world \<Rightarrow> world" where
  "enrolling w = w\<lparr>replies := (\<lambda>k. if k mod 8 = 2 then [] else ack)\<rparr>"

text \<open>Five turns of the selection loop of \<open>enrollFingerprint\<close> that choose ID 5.\<close>

definition choose5 :: "navigation list" where
  "choose5 = [press_up, press_up, press_up, press_up, press_enroll]"

text \<open>The state after an enrollment (the state before it while the enrollment has not returned).\<close>

definition after_enroll :: "navigation list \<Rightarrow> world \<Rightarrow> world" where
  "after_enroll buttons w = (case enrollFingerprint buttons w of None \<Rightarrow> w | Some r \<Rightarrow> snd r)"

text \<open>
  A line on which the sensor answers every GET_IMAGE with "no finger" (code 0x02): one stale
  byte is pending when a turn begins, the twelve bytes of the answer arrive one per turn of the
  loop of \<open>readResponse\<close>, and 1000 ms after its start nothing more has come.
\<close>

definition no_finger :: "byte list" where
  "no_finger = [0xEF, 0x01, 0xFF, 0xFF, 0xFF, 0xFF, 0x07, 0x00, 0x03, 0x02, 0x00, 0x0C]"

definition no_finger_line :: "nat \<Rightarrow> turn" where
  "no_finger_line k =
     \<lparr>avail_wait = [True, False], avail_send = [False], stale = replicate 32 0xAA,
      started = 5000,
      observed = map (\<lambda>b. \<lparr>now = 5001, rx = Some b\<rparr>) no_finger @ [\<lparr>now = 6000, rx = None\<rparr>]\<rparr>"

text \<open>Five turns of the selection loop of \<open>deleteByID\<close> that choose ID 5.\<close>

definition delete5 :: "navigation list" where
  "delete5 = [press_up, press_up, press_up, press_up, press_delete]"

text \<open>The state after a deletion (the state before it while the deletion has not returned).\<close>

definition after_delete :: "navigation list \<Rightarrow> world \<Rightarrow> world" where
  "after_delete buttons w = (case deleteByID buttons w of None \<Rightarrow> w | Some r \<Rightarrow> snd r)"

text \<open>An erased device on which the operator has enrolled ID 5 two times.\<close>

definition enrolled_twice :: world where
  "enrolled_twice = after_enroll choose5 (after_enroll choose5 (enrolling factory_world))"

text \<open>
  The registry writes of 25 enrollments: IDs 1 to 12 each two times, then ID 13. On an erased
  device they take all 25 slots, and no slot holds ID 14.
\<close>

definition crowding :: "registry_op list" where
  "crowding = map (\<lambda>n. Allocate (of_nat n)) ([1..<13] @ [1..<13] @ [13])"

definition crowded_world :: world where
  "crowded_world =
     factory_world\<lparr>eeprom := run_ops crowding (eeprom factory_world), totalFingerprints := 13\<rparr>"

text \<open>Fourteen turns of the selection loop of \<open>enrollFingerprint\<close> that choose ID 14.\<close>

definition choose14 :: "navigation list" where
  "choose14 = replicate 13 press_up @ [press_enroll]"

text \<open>
  From the current exchange on the sensor acknowledges every command and answers every search,
  the third exchange of a run of \<open>verifyAndVote\<close>, with ID 14.
\<close>

definition finding14 :: "world \<Rightarrow> world" where
  "finding14 w = w\<lparr>replies := (\<lambda>k. if k mod 3 = (nread w + 2) mod 3 then found14 else ack)\<rparr>"

text \<open>Runs of \<open>verifyAndVote\<close> one after the other, with their outcomes.\<close>

fun vote_rounds :: "candidates list list \<Rightarrow> world \<Rightarrow> vote_outcome list \<times> world" where
  "vote_rounds [] w = ([], w)"
| "vote_rounds (presses # rest) w =
     (let (out, w) = verifyAndVote presses w;
          (outs, w) = vote_rounds rest w
      in (out # outs, w))"

definition press1 :: "candidates list" where
  "press1 = [\<lparr>cand1 = True, cand2 = False, cand3 = False\<rparr>]"


section \<open>Properties of sendCommand\<close>

lemma put_ok: "idx < length pkt \<Longrightarrow> put b (Inr (pkt, idx)) = Inr (pkt[idx := b], Suc idx)"
  by (simp add: put_def)

lemma put_Inl: "put b (Inl e) = Inl e"
  by (simp add: put_def)

lemma put_all_Inl: "put_all ds (Inl e) = Inl e"
  by (induction ds) (simp_all add: put_Inl)

lemma put_all_ok:
  "idx + length ds \<le> length pkt \<Longrightarrow>
   \<exists>pkt'. put_all ds (Inr (pkt, idx)) = Inr (pkt', idx + length ds) \<and> length pkt' = length pkt
          \<and> take (idx + length ds) pkt' = take idx pkt @ ds"
proof (induction ds arbitrary: pkt idx)
  case Nil
  then show ?case by simp
next
  case (Cons d ds)
  then have lt: "idx < length pkt" and le: "Suc idx + length ds \<le> length (pkt[idx := d])"
    by simp_all
  from Cons.IH [OF le] obtain pkt' where
    r: "put_all ds (Inr (pkt[idx := d], Suc idx)) = Inr (pkt', Suc idx + length ds)"
    and l: "length pkt' = length (pkt[idx := d])"
    and t: "take (Suc idx + length ds) pkt' = take (Suc idx) (pkt[idx := d]) @ ds"
    by blast
  from lt have "take (Suc idx) (pkt[idx := d]) = take idx pkt @ [d]"
    by (simp add: take_Suc_conv_app_nth)
  with r l t lt show ?case by (simp add: put_ok)
qed

lemma put_all_overflow:
  "idx \<le> length pkt \<Longrightarrow> length pkt < idx + length ds \<Longrightarrow>
   put_all ds (Inr (pkt, idx)) = Inl OutOfBounds"
proof (induction ds arbitrary: pkt idx)
  case Nil
  then show ?case by simp
next
  case (Cons d ds)
  show ?case
  proof (cases "idx < length pkt")
    case True
    with Cons.prems have "Suc idx \<le> length (pkt[idx := d])"
      and "length (pkt[idx := d]) < Suc idx + length ds"
      by simp_all
    from Cons.IH [OF this] True show ?thesis by (simp add: put_ok)
  next
    case False
    then show ?thesis by (simp add: put_def put_all_Inl)
  qed
qed

lemma put_all_append: "put_all (xs @ ys) r = put_all ys (put_all xs r)"
  by (induction xs arbitrary: r) simp_all

text \<open>The stores of \<open>sendCommand\<close> are one run of \<open>packet[idx++] = b\<close> over \<open>stored_bytes\<close>.\<close>

lemma sendCommand_put_all:
  "sendCommand packet cmd data =
     (case put_all (stored_bytes cmd data) (Inr (packet, 0)) of
        Inl e \<Rightarrow> Inl e | Inr (pkt, idx) \<Rightarrow> Inr (take idx pkt))"
  by (simp add: sendCommand_def stored_bytes_def Let_def put_all_append)

lemma length_stored_bytes: "length (stored_bytes cmd data) = length data + 12"
  by (simp add: stored_bytes_def Let_def)

lemma sendCommand_fits:
  assumes "length data + 12 \<le> length packet"
  shows "sendCommand packet cmd data = Inr (stored_bytes cmd data)"
proof -
  from assms have "0 + length (stored_bytes cmd data) \<le> length packet"
    by (simp add: length_stored_bytes)
  from put_all_ok [OF this] obtain pkt' where
    "put_all (stored_bytes cmd data) (Inr (packet, 0)) =
       Inr (pkt', 0 + length (stored_bytes cmd data))"
    "take (0 + length (stored_bytes cmd data)) pkt' = take 0 packet @ stored_bytes cmd data"
    by blast
  then show ?thesis by (simp add: sendCommand_put_all)
qed

lemma sendCommand_overflow:
  assumes "length packet < length data + 12"
  shows "sendCommand packet cmd data = Inl OutOfBounds"
proof -
  from assms have "length packet < 0 + length (stored_bytes cmd data)"
    by (simp add: length_stored_bytes)
  from put_all_overflow [OF _ this] show ?thesis by (simp add: sendCommand_put_all)
qed

lemma xFF_mask: "(0xFF :: cint) = mask 8"
  by (simp add: mask_eq_exp_minus_1)

lemma ucast_mask_byte: "(ucast (v AND 0xFF) :: byte) = ucast (v :: cint)"
  unfolding xFF_mask by (rule bit_word_eqI) (auto simp: bit_simps)

lemma ucast_byte_cint: "(ucast (ucast (v :: cint) :: byte) :: cint) = v AND 0xFF"
  unfolding xFF_mask by (rule bit_word_eqI) (auto simp: bit_simps)

lemma foldl_add_ucast:
  "foldl (\<lambda>c d. c + ucast d) (a :: cint) (data :: byte list) = a + of_nat (sum_list (map unat data))"
  by (induction data arbitrary: a) (simp_all add: algebra_simps)

lemma checksum_sum:
  "checksum (of_nat (length data) + 3) cmd data = sum_with_type cmd data"
  by (simp add: checksum_def sum_with_type_def Let_def PACKAGE_ID_def foldl_add_ucast
      ucast_byte_cint [symmetric] ucast_mask_byte algebra_simps)

lemma stored_bytes_be16:
  "stored_bytes cmd data =
     [0xEF, 0x01] @ [0xFF, 0xFF, 0xFF, 0xFF] @ [0x01] @ be16 (of_nat (length data + 3)) @ [cmd]
       @ data @ be16 (checksum (of_nat (length data + 3)) cmd data)"
  by (simp add: stored_bytes_def Let_def be16_def ucast_mask_byte HEADER_H_def HEADER_L_def
      PACKAGE_ID_def)

text \<open>
  Claim C1, as the code has it. For every command byte and every payload of 0 to 116 bytes
  (the longest that fits the 128-byte array \<open>packet\<close>), the two bytes that \<open>sendCommand\<close>
  appends to the frame are the big-endian 16-bit sum of the packet-type byte 0x01, the two
  length bytes, the command byte and the payload bytes. The checksum bytes themselves are not
  summed.
\<close>

theorem sendCommand_checksum_with_type:
  assumes "length packet = 128" and "length data \<le> 116"
  shows "\<exists>frame. sendCommand packet cmd data = Inr frame
           \<and> checksum_field frame = be16 (sum_with_type cmd data)"
proof -
  from assms have "length data + 12 \<le> length packet" by simp
  then have "sendCommand packet cmd data = Inr (stored_bytes cmd data)"
    by (rule sendCommand_fits)
  moreover have "checksum_field (stored_bytes cmd data) = be16 (sum_with_type cmd data)"
    by (simp add: checksum_field_def stored_bytes_be16 be16_def checksum_sum [symmetric])
  ultimately show ?thesis by blast
qed

theorem sendCommand_checksum_with_type_witness:
  "\<exists>frame. sendCommand (replicate 128 0) SEARCH [0x01, 0x00, 0x00, 0x00, 0x7F] = Inr frame
     \<and> checksum_field frame = [0x00, 0x8D]"
  using sendCommand_checksum_with_type [of "replicate 128 0" "[0x01, 0x00, 0x00, 0x00, 0x7F]" SEARCH]
  by (simp add: sum_with_type_def be16_def SEARCH_def)

text \<open>
  The claim as worded fails twice. For GET_IMAGE without payload the frame ends in 0x00 0x05,
  while the sum without the packet-type byte is 0x0004. For a payload of 117 bytes the second
  checksum byte would be stored at \<open>packet[128]\<close>, behind the end of the array.
\<close>

theorem sendCommand_checksum_counterexample:
  "sendCommand (replicate 128 0) GET_IMAGE []
     = Inr [0xEF, 0x01, 0xFF, 0xFF, 0xFF, 0xFF, 0x01, 0x00, 0x03, 0x01, 0x00, 0x05]
   \<and> checksum_field [0xEF, 0x01, 0xFF, 0xFF, 0xFF, 0xFF, 0x01, 0x00, 0x03, 0x01, 0x00, 0x05]
       \<noteq> be16 (sum_without_type GET_IMAGE [])
   \<and> sendCommand (replicate 128 0) GET_IMAGE (replicate 117 0) = Inl OutOfBounds"
proof -
  have "sendCommand (replicate 128 0) GET_IMAGE []
     = Inr [0xEF, 0x01, 0xFF, 0xFF, 0xFF, 0xFF, 0x01, 0x00, 0x03, 0x01, 0x00, 0x05]"
    by (simp add: sendCommand_fits stored_bytes_def checksum_def GET_IMAGE_def HEADER_H_def
        HEADER_L_def PACKAGE_ID_def)
  moreover have "checksum_field [0xEF, 0x01, 0xFF, 0xFF, 0xFF, 0xFF, 0x01, 0x00, 0x03, 0x01, 0x00, 0x05]
       \<noteq> be16 (sum_without_type GET_IMAGE [])"
    by (simp add: checksum_field_def be16_def sum_without_type_def GET_IMAGE_def)
  moreover have "sendCommand (replicate 128 0) GET_IMAGE (replicate 117 0) = Inl OutOfBounds"
    by (simp add: sendCommand_overflow)
  ultimately show ?thesis by blast
qed

text \<open>
  Claim C9, as the code has it. For every command byte and every payload of 0 to 116 bytes,
  \<open>sendCommand\<close> transmits the header 0xEF 0x01, the address 0xFF 0xFF 0xFF 0xFF, the packet
  type 0x01, the big-endian length payload + 3, the command byte, the payload and the
  big-endian checksum, in that order and nothing else.
\<close>

theorem sendCommand_frame_layout:
  assumes "length packet = 128" and "length data \<le> 116"
  shows "sendCommand packet cmd data =
     Inr ([0xEF, 0x01] @ [0xFF, 0xFF, 0xFF, 0xFF] @ [0x01] @ be16 (of_nat (length data + 3))
          @ [cmd] @ data @ be16 (checksum (of_nat (length data + 3)) cmd data))"
proof -
  from assms have "length data + 12 \<le> length packet" by simp
  then have "sendCommand packet cmd data = Inr (stored_bytes cmd data)"
    by (rule sendCommand_fits)
  then show ?thesis by (simp only: stored_bytes_be16)
qed

theorem sendCommand_frame_layout_witness:
  "sendCommand (replicate 128 0) SEARCH [0x01, 0x00, 0x00, 0x00, 0x7F] =
     Inr [0xEF, 0x01, 0xFF, 0xFF, 0xFF, 0xFF, 0x01, 0x00, 0x08, 0x04,
          0x01, 0x00, 0x00, 0x00, 0x7F, 0x00, 0x8D]"
  using sendCommand_frame_layout [of "replicate 128 0" "[0x01, 0x00, 0x00, 0x00, 0x7F]" SEARCH]
  by (simp add: be16_def checksum_def SEARCH_def PACKAGE_ID_def)

text \<open>
  With a payload of 117 or 118 bytes the frame has 129 or 130 bytes and \<open>sendCommand\<close> stores
  behind the end of \<open>packet\<close>: nothing is promised about what is transmitted.
\<close>

theorem sendCommand_frame_layout_counterexample:
  "sendCommand (replicate 128 0) GET_IMAGE (replicate 117 0) = Inl OutOfBounds
   \<and> sendCommand (replicate 128 0) GET_IMAGE (replicate 118 0) = Inl OutOfBounds"
  by (simp add: sendCommand_overflow)

section \<open>Properties of readResponse\<close>

lemma arrived_Nil: "arrived s tmo [] = []"
  by (simp add: arrived_def)

lemma arrived_Cons:
  "arrived s tmo (t # ts) =
     (if in_time s tmo t then (case rx t of None \<Rightarrow> arrived s tmo ts | Some b \<Rightarrow> b # arrived s tmo ts)
      else [])"
  by (simp add: arrived_def split: option.splits)

lemma readLoop_spec:
  assumes "idx < 32" and "32 \<le> length buffer"
  shows "readLoop s tmo ticks buffer idx =
     (let bytes = arrived s tmo ticks in
      if 32 \<le> idx + length bytes
      then Some (Inr (32, take idx buffer @ take (32 - idx) bytes @ drop 32 buffer))
      else if \<exists>t \<in> set ticks. \<not> in_time s tmo t
      then Some (Inr (idx + length bytes, take idx buffer @ bytes @ drop (idx + length bytes) buffer))
      else None)"
  using assms
proof (induction ticks arbitrary: buffer idx)
  case Nil
  then show ?case by (simp add: arrived_Nil)
next
  case (Cons t ts)
  show ?case
  proof (cases "in_time s tmo t")
    case False
    with Cons.prems show ?thesis
      by (simp add: arrived_Cons in_time_def)
  next
    case True
    show ?thesis
    proof (cases "rx t")
      case None
      with True Cons.IH [OF Cons.prems] show ?thesis
        by (simp add: arrived_Cons in_time_def Let_def)
    next
      case (Some b)
      from Cons.prems have lt: "idx < length buffer" by simp
      have upd: "take (Suc idx) (buffer[idx := b]) = take idx buffer @ [b]"
        using lt by (simp add: take_Suc_conv_app_nth)
      show ?thesis
      proof (cases "idx = 31")
        case True
        have "buffer[31 := b] = take 31 buffer @ [b] @ drop 32 buffer"
          using Cons.prems by (simp add: upd_conv_take_nth_drop)
        with True Some \<open>in_time s tmo t\<close> lt show ?thesis
          by (simp add: arrived_Cons in_time_def Let_def)
      next
        case False
        with Cons.prems have i: "Suc idx < 32" and l: "32 \<le> length (buffer[idx := b])" by simp_all
        have d32: "drop 32 (buffer[idx := b]) = drop 32 buffer"
          using Cons.prems by simp
        have dn: "drop (Suc (idx + n)) (buffer[idx := b]) = drop (Suc (idx + n)) buffer" for n
          by simp
        from i have "32 - idx = Suc (32 - Suc idx)" by simp
        then have tk: "take (32 - idx) (b # bs) = b # take (32 - Suc idx) bs" for bs
          by (simp only: take_Suc_Cons)
        from Cons.IH [OF i l] Some \<open>in_time s tmo t\<close> lt False i show ?thesis
          by (simp add: arrived_Cons in_time_def Let_def upd d32 dn tk)
      qed
    qed
  qed
qed

lemma readResponse_spec:
  assumes "32 \<le> length buffer"
  shows "readResponse buffer timeout startTime ticks =
     (let bytes = arrived startTime timeout ticks in
      if 32 \<le> length bytes then Some (Inr (32, take 32 bytes @ drop 32 buffer))
      else if \<exists>t \<in> set ticks. \<not> in_time startTime timeout t
      then Some (Inr (length bytes, bytes @ drop (length bytes) buffer))
      else None)"
  using assms by (simp add: readResponse_def readLoop_spec Let_def)

text \<open>
  Claim C10. Whatever the timeout and the incoming bytes, \<open>readResponse\<close> called with a buffer
  of at least 32 bytes never stores behind its end. When it returns, it returns \<open>n \<le> 32\<close>,
  the buffer holds in its first \<open>n\<close> places the first \<open>n\<close> bytes that arrived in time and is
  unchanged behind them, so \<open>n\<close> is the number of bytes written. It returns as soon as 32 bytes
  have arrived or a turn of the loop finds the timeout elapsed.
\<close>

theorem readResponse_at_most_32:
  assumes "32 \<le> length buffer"
  shows "readResponse buffer timeout startTime ticks \<noteq> Some (Inl OutOfBounds)
    \<and> (\<forall>n buffer'. readResponse buffer timeout startTime ticks = Some (Inr (n, buffer')) \<longrightarrow>
          n \<le> 32 \<and> n = length (take 32 (arrived startTime timeout ticks))
          \<and> buffer' = take 32 (arrived startTime timeout ticks) @ drop n buffer)
    \<and> (32 \<le> length (arrived startTime timeout ticks)
         \<or> (\<exists>t \<in> set ticks. \<not> in_time startTime timeout t) \<longrightarrow>
        readResponse buffer timeout startTime ticks \<noteq> None)"
  by (auto simp: readResponse_spec [OF assms] Let_def split: if_splits)

theorem readResponse_at_most_32_witness:
  "readResponse (replicate 32 0) 1000 0
     [\<lparr>now = 5, rx = Some 0xEF\<rparr>, \<lparr>now = 6, rx = None\<rparr>, \<lparr>now = 7, rx = Some 0x01\<rparr>,
      \<lparr>now = 2000, rx = None\<rparr>]
   = Some (Inr (2, [0xEF, 0x01] @ replicate 30 0)) \<and> (2 :: nat) \<le> 32"
proof -
  have len: "32 \<le> length (replicate 32 (0 :: byte))"
    by simp
  have val: "readResponse (replicate 32 0) 1000 0
     [\<lparr>now = 5, rx = Some 0xEF\<rparr>, \<lparr>now = 6, rx = None\<rparr>, \<lparr>now = 7, rx = Some 0x01\<rparr>,
      \<lparr>now = 2000, rx = None\<rparr>]
   = Some (Inr (2, [0xEF, 0x01] @ replicate 30 0))"
    by code_simp
  from readResponse_at_most_32 [OF len, of 1000 0
     "[\<lparr>now = 5, rx = Some 0xEF\<rparr>, \<lparr>now = 6, rx = None\<rparr>, \<lparr>now = 7, rx = Some 0x01\<rparr>,
      \<lparr>now = 2000, rx = None\<rparr>]"] val
  show ?thesis by blast
qed

section \<open>Properties of waitForFinger\<close>

lemma sint_dec:
  assumes "0 <s (timeout :: cint)"
  shows "nat (sint (timeout - 1)) = nat (sint timeout) - 1" and "0 < nat (sint timeout)"
proof -
  from assms have pos: "0 < sint timeout" by (simp add: word_sless_alt)
  have "sint timeout < 2 ^ 15" using sint_lt [of timeout] by simp
  with pos have "sint (timeout - 1) = sint timeout - 1"
    by (simp add: sint_word_ariths signed_take_bit_int_eq_self)
  with pos show "nat (sint (timeout - 1)) = nat (sint timeout) - 1" by simp
  from pos show "0 < nat (sint timeout)" by simp
qed

lemma sint_not_pos: "\<not> 0 <s (timeout :: cint) \<Longrightarrow> nat (sint timeout) = 0"
  by (simp add: word_sless_alt)

lemma waitLoop_stop: "\<not> 0 <s timeout \<Longrightarrow> waitLoop timeout w = (False, w)"
  by (subst waitLoop.simps) simp

lemma waitLoop_success:
  "0 <s timeout \<Longrightarrow> 12 \<le> length (replies w (nread w)) \<Longrightarrow> replies w (nread w) ! 9 = 0x00 \<Longrightarrow>
   waitLoop timeout w = (True, w\<lparr>commands := commands w @ [(GET_IMAGE, [])], nread := nread w + 1\<rparr>)"
  by (subst waitLoop.simps) (simp add: call_sendCommand_def call_readResponse_def Let_def)

lemma waitLoop_retry:
  "0 <s timeout \<Longrightarrow> \<not> (12 \<le> length (replies w (nread w)) \<and> replies w (nread w) ! 9 = 0x00) \<Longrightarrow>
   waitLoop timeout w =
     waitLoop (timeout - 1) (w\<lparr>commands := commands w @ [(GET_IMAGE, [])], nread := nread w + 1\<rparr>)"
  by (subst waitLoop.simps) (auto simp add: call_sendCommand_def call_readResponse_def Let_def)

lemma waitLoop_bound: "nread (snd (waitLoop timeout w)) \<le> nread w + nat (sint timeout)"
proof (induction "nat (sint timeout)" arbitrary: timeout w)
  case 0
  then have "\<not> 0 <s timeout" by (simp add: word_sless_alt)
  then show ?case by (simp add: waitLoop_stop)
next
  case (Suc n)
  then have pos: "0 <s timeout" by (simp add: word_sless_alt)
  show ?case
  proof (cases "12 \<le> length (replies w (nread w)) \<and> replies w (nread w) ! 9 = 0x00")
    case True
    with pos Suc.hyps(2) [symmetric] show ?thesis by (simp add: waitLoop_success)
  next
    case False
    let ?w = "w\<lparr>commands := commands w @ [(GET_IMAGE, [])], nread := nread w + 1\<rparr>"
    from pos Suc.hyps(2) have "n = nat (sint (timeout - 1))" by (simp add: sint_dec)
    from Suc.hyps(1) [OF this, of ?w] pos False Suc.hyps(2) [symmetric] show ?thesis
      by (simp add: waitLoop_retry sint_dec)
  qed
qed

lemma waitLoop_never:
  assumes "\<forall>k\<ge>nread w. \<not> (12 \<le> length (replies w k) \<and> replies w k ! 9 = 0x00)"
  shows "waitLoop timeout w =
     (False, w\<lparr>commands := commands w @ replicate (nat (sint timeout)) (GET_IMAGE, []),
               nread := nread w + nat (sint timeout)\<rparr>)"
  using assms
proof (induction "nat (sint timeout)" arbitrary: timeout w)
  case 0
  then have "\<not> 0 <s timeout" by (simp add: word_sless_alt)
  with 0 show ?case by (simp add: waitLoop_stop)
next
  case (Suc n)
  then have pos: "0 <s timeout" by (simp add: word_sless_alt)
  let ?w = "w\<lparr>commands := commands w @ [(GET_IMAGE, [])], nread := nread w + 1\<rparr>"
  from Suc.prems have no: "\<not> (12 \<le> length (replies w (nread w)) \<and> replies w (nread w) ! 9 = 0x00)"
    by simp
  from Suc.prems have later: "\<forall>k\<ge>nread ?w. \<not> (12 \<le> length (replies ?w k) \<and> replies ?w k ! 9 = 0x00)"
    by simp
  from pos Suc.hyps(2) have n: "n = nat (sint (timeout - 1))" by (simp add: sint_dec)
  have "waitLoop timeout w = waitLoop (timeout - 1) ?w"
    using pos no by (rule waitLoop_retry)
  also have "\<dots> = (False, ?w\<lparr>commands := commands ?w @ replicate n (GET_IMAGE, []),
               nread := nread ?w + n\<rparr>)"
    using Suc.hyps(1) [OF n later] n by simp
  also have "\<dots> = (False, w\<lparr>commands := commands w @ replicate (nat (sint timeout)) (GET_IMAGE, []),
               nread := nread w + nat (sint timeout)\<rparr>)"
    using Suc.hyps(2) [symmetric] by (simp add: replicate_append_same)
  finally show ?case .
qed

text \<open>
  In the state-passing model, whatever the replies, \<open>waitForFinger\<close> makes at most
  \<open>timeoutSeconds * 10\<close> exchanges; when no reply is a success it makes exactly that many, each
  one a GET_IMAGE command, and returns false.
\<close>

lemma waitForFinger_exchanges:
  "nread (snd (waitForFinger timeoutSeconds w)) \<le> nread w + nat (sint (timeoutSeconds * 10))
   \<and> ((\<forall>k\<ge>nread w. \<not> (12 \<le> length (replies w k) \<and> replies w k ! 9 = 0x00)) \<longrightarrow>
        waitForFinger timeoutSeconds w =
          (False, w\<lparr>commands := commands w
                       @ replicate (nat (sint (timeoutSeconds * 10))) (GET_IMAGE, []),
                    nread := nread w + nat (sint (timeoutSeconds * 10))\<rparr>)
        \<and> waitForFinger 1 w =
          (False, w\<lparr>commands := commands w @ replicate 10 (GET_IMAGE, []),
                    nread := nread w + 10\<rparr>))"
proof -
  have "nat (sint (1 * 10 :: cint)) = 10" by simp
  then show ?thesis
    unfolding waitForFinger_def using waitLoop_bound waitLoop_never [of w] by metis
qed

subsection \<open>On the serial line\<close>

text \<open>
  \<open>pollLoop\<close> has the two loops \<open>while (fingerSerial.available()) fingerSerial.read();\<close> of
  every turn (line 957 and line 1157, in \<open>sendCommand\<close>) and the loop of \<open>readResponse\<close>.
  A loop that discards returns exactly when some answer of \<open>available()\<close> is false.
\<close>

lemma discard_returns: "(\<exists>n. discard as = Some n) \<longleftrightarrow> False \<in> set as"
  by (induction as) auto

lemma discard_running: "(\<forall>a\<in>set as. a) \<Longrightarrow> discard as = None"
  by (induction as) auto

lemma readResponse_turn:
  assumes room: "32 \<le> length (stale t)"
    and clock: "32 \<le> length (arrived (started t) 1000 (observed t))
        \<or> (\<exists>x \<in> set (observed t). \<not> in_time (started t) 1000 x)"
  shows "readResponse (stale t) 1000 (started t) (observed t) =
     Some (Inr (length (answer t), answer t @ drop (length (answer t)) (stale t)))"
proof (cases "32 \<le> length (arrived (started t) 1000 (observed t))")
  case True
  then show ?thesis
    by (simp add: readResponse_spec [OF room] answer_def Let_def)
next
  case False
  with clock have "\<exists>x \<in> set (observed t). \<not> in_time (started t) 1000 x" by blast
  with False show ?thesis
    by (simp add: readResponse_spec [OF room] answer_def Let_def)
qed

lemma answer_nth: "i < length (answer t) \<Longrightarrow> (answer t @ rest) ! i = answer t ! i"
  by (simp add: nth_append)

lemma pollLoop_stop: "\<not> 0 <s timeout \<Longrightarrow> pollLoop timeout env k = Some (Inr (False, k))"
  by (subst pollLoop.simps) simp

lemma pollLoop_flooded:
  "0 <s timeout \<Longrightarrow> (\<forall>a\<in>set (avail_wait (env k)). a) \<Longrightarrow> pollLoop timeout env k = None"
  by (subst pollLoop.simps) (simp add: discard_running)

lemma pollLoop_turn:
  assumes pos: "0 <s timeout"
    and idle: "False \<in> set (avail_wait (env k))" "False \<in> set (avail_send (env k))"
    and room: "32 \<le> length (stale (env k))"
    and clock: "32 \<le> length (arrived (started (env k)) 1000 (observed (env k)))
        \<or> (\<exists>x \<in> set (observed (env k)). \<not> in_time (started (env k)) 1000 x)"
  shows "pollLoop timeout env k =
     (if 12 \<le> length (answer (env k)) \<and> answer (env k) ! 9 = 0x00 then Some (Inr (True, k + 1))
      else pollLoop (timeout - 1) env (k + 1))"
proof -
  from idle obtain n1 n2 where d: "discard (avail_wait (env k)) = Some n1"
      "discard (avail_send (env k)) = Some n2"
    using discard_returns by blast
  note rr = readResponse_turn [OF room clock]
  show ?thesis
    by (subst pollLoop.simps) (simp add: pos d rr answer_nth)
qed


lemma pollLoop_settled:
  assumes "settles (env k)" and "0 <s timeout"
  shows "pollLoop timeout env k =
     (if 12 \<le> length (answer (env k)) \<and> answer (env k) ! 9 = 0x00 then Some (Inr (True, k + 1))
      else pollLoop (timeout - 1) env (k + 1))"
  using assms by (intro pollLoop_turn) (simp_all add: settles_def)

lemma pollLoop_returns:
  assumes "\<forall>k. settles (env k)"
  shows "\<exists>b n. pollLoop timeout env k = Some (Inr (b, n)) \<and> n \<le> k + nat (sint timeout)"
proof (induction "nat (sint timeout)" arbitrary: timeout k)
  case 0
  then have "\<not> 0 <s timeout" by (simp add: word_sless_alt)
  then have "pollLoop timeout env k = Some (Inr (False, k)) \<and> k \<le> k + nat (sint timeout)"
    by (simp add: pollLoop_stop)
  then show ?case by blast
next
  case (Suc m)
  then have pos: "0 <s timeout" by (simp add: word_sless_alt)
  from assms have s: "settles (env k)" by blast
  from pos Suc.hyps(2) have m: "m = nat (sint (timeout - 1))" by (simp add: sint_dec)
  show ?case
  proof (cases "12 \<le> length (answer (env k)) \<and> answer (env k) ! 9 = 0x00")
    case True
    with pollLoop_settled [of env k timeout, OF s pos] Suc.hyps(2) [symmetric]
    have "pollLoop timeout env k = Some (Inr (True, k + 1)) \<and> k + 1 \<le> k + nat (sint timeout)"
      by simp
    then show ?thesis by blast
  next
    case False
    from Suc.hyps(1) [OF m, of "k + 1"] obtain b n where
      "pollLoop (timeout - 1) env (k + 1) = Some (Inr (b, n))" "n \<le> k + 1 + m"
      using m by auto
    moreover have "pollLoop timeout env k = pollLoop (timeout - 1) env (k + 1)"
      unfolding pollLoop_settled [of env k timeout, OF s pos] using False by (rule if_not_P)
    ultimately have "pollLoop timeout env k = Some (Inr (b, n)) \<and> n \<le> k + nat (sint timeout)"
      using Suc.hyps(2) [symmetric] by simp
    then show ?thesis by blast
  qed
qed

lemma pollLoop_never:
  assumes "\<forall>k. settles (env k)"
    and "\<forall>k. \<not> (12 \<le> length (answer (env k)) \<and> answer (env k) ! 9 = 0x00)"
  shows "pollLoop timeout env k = Some (Inr (False, k + nat (sint timeout)))"
proof (induction "nat (sint timeout)" arbitrary: timeout k)
  case 0
  then have "\<not> 0 <s timeout" by (simp add: word_sless_alt)
  with 0 show ?case by (simp add: pollLoop_stop)
next
  case (Suc m)
  then have pos: "0 <s timeout" by (simp add: word_sless_alt)
  from assms have s: "settles (env k)"
    and no: "\<not> (12 \<le> length (answer (env k)) \<and> answer (env k) ! 9 = 0x00)" by blast+
  from pos Suc.hyps(2) have m: "m = nat (sint (timeout - 1))" by (simp add: sint_dec)
  have "pollLoop timeout env k = pollLoop (timeout - 1) env (k + 1)"
    unfolding pollLoop_settled [of env k timeout, OF s pos] using no by (rule if_not_P)
  also have "\<dots> = Some (Inr (False, k + 1 + m))"
    using Suc.hyps(1) [OF m, of "k + 1"] m by simp
  finally show ?case using Suc.hyps(2) [symmetric] by simp
qed

text \<open>
  A line that keeps \<open>available()\<close> true keeps the first turn in its first loop:
  \<open>waitForFinger\<close> does not return.
\<close>

lemma waitForFinger_serial_flooded:
  "0 <s timeoutSeconds * 10 \<Longrightarrow> (\<forall>a\<in>set (avail_wait (env 0)). a) \<Longrightarrow>
   waitForFinger_serial timeoutSeconds env = None"
  by (simp add: waitForFinger_serial_def pollLoop_flooded)

text \<open>
  On a line that settles, the state-passing model and the serial one agree: the same result,
  and as many replies consumed as turns made, when each reply is what \<open>readResponse\<close> stored.
\<close>

lemma waitLoop_abstracts:
  assumes "\<forall>j. settles (env j)"
    and "\<forall>j. replies w (nread w + j) = answer (env (k + j))"
  shows "\<exists>n. nread (snd (waitLoop timeout w)) = nread w + n
     \<and> pollLoop timeout env k = Some (Inr (fst (waitLoop timeout w), k + n))"
  using assms(2)
proof (induction "nat (sint timeout)" arbitrary: timeout k w)
  case 0
  then have "\<not> 0 <s timeout" by (simp add: word_sless_alt)
  then have "nread (snd (waitLoop timeout w)) = nread w + 0
     \<and> pollLoop timeout env k = Some (Inr (fst (waitLoop timeout w), k + 0))"
    by (simp add: waitLoop_stop pollLoop_stop)
  then show ?case by blast
next
  case (Suc m)
  then have pos: "0 <s timeout" by (simp add: word_sless_alt)
  from assms(1) have s: "settles (env k)" by blast
  from Suc.prems [rule_format, of 0] have here: "replies w (nread w) = answer (env k)" by simp
  from pos Suc.hyps(2) have m: "m = nat (sint (timeout - 1))" by (simp add: sint_dec)
  show ?case
  proof (cases "12 \<le> length (answer (env k)) \<and> answer (env k) ! 9 = 0x00")
    case True
    with here pos have "waitLoop timeout w =
        (True, w\<lparr>commands := commands w @ [(GET_IMAGE, [])], nread := nread w + 1\<rparr>)"
      by (intro waitLoop_success) simp_all
    moreover from True have "pollLoop timeout env k = Some (Inr (True, k + 1))"
      unfolding pollLoop_settled [of env k timeout, OF s pos] by (rule if_P)
    ultimately have "nread (snd (waitLoop timeout w)) = nread w + 1
       \<and> pollLoop timeout env k = Some (Inr (fst (waitLoop timeout w), k + 1))"
      by simp
    then show ?thesis by blast
  next
    case False
    let ?w = "w\<lparr>commands := commands w @ [(GET_IMAGE, [])], nread := nread w + 1\<rparr>"
    from False here have w: "waitLoop timeout w = waitLoop (timeout - 1) ?w"
      using pos by (intro waitLoop_retry) simp_all
    from False have p: "pollLoop timeout env k = pollLoop (timeout - 1) env (k + 1)"
      unfolding pollLoop_settled [of env k timeout, OF s pos] by (rule if_not_P)
    have "\<forall>j. replies ?w (nread ?w + j) = answer (env (k + 1 + j))"
    proof
      fix j
      from Suc.prems [rule_format, of "j + 1"]
      show "replies ?w (nread ?w + j) = answer (env (k + 1 + j))"
        by (simp add: add.commute add.left_commute)
    qed
    from Suc.hyps(1) [OF m this] obtain n where
      "nread (snd (waitLoop (timeout - 1) ?w)) = nread ?w + n"
      "pollLoop (timeout - 1) env (k + 1) = Some (Inr (fst (waitLoop (timeout - 1) ?w), k + 1 + n))"
      by blast
    with w p have "nread (snd (waitLoop timeout w)) = nread w + (n + 1)
       \<and> pollLoop timeout env k = Some (Inr (fst (waitLoop timeout w), k + (n + 1)))"
      by simp
    then show ?thesis by blast
  qed
qed

text \<open>
  Claim C8. Take any behaviour of the line on which, in every turn, each of the two loops that
  discard pending input gets the answer false from \<open>available()\<close> at some point, and the clock
  read by \<open>readResponse\<close> passes its 1000 ms unless 32 bytes have come before. Then
  \<open>waitForFinger\<close> returns, whatever the bytes received, after at most \<open>timeoutSeconds * 10\<close>
  turns. When no turn receives a success (fewer than 12 bytes, code 0x02 or any other non-zero
  code), it makes exactly that many turns and returns false: 10 turns for \<open>waitForFinger(1)\<close>.
\<close>

theorem waitForFinger_returns:
  assumes "\<forall>k. settles (env k)"
  shows "(\<exists>b n. waitForFinger_serial timeoutSeconds env = Some (Inr (b, n))
            \<and> n \<le> nat (sint (timeoutSeconds * 10)))
    \<and> ((\<forall>k. \<not> (12 \<le> length (answer (env k)) \<and> answer (env k) ! 9 = 0x00)) \<longrightarrow>
         waitForFinger_serial timeoutSeconds env
           = Some (Inr (False, nat (sint (timeoutSeconds * 10))))
         \<and> waitForFinger_serial 1 env = Some (Inr (False, 10)))"
proof -
  have ten: "nat (sint (1 * 10 :: cint)) = 10" by simp
  from pollLoop_returns [OF assms, of "timeoutSeconds * 10" 0]
  have a: "\<exists>b n. waitForFinger_serial timeoutSeconds env = Some (Inr (b, n))
            \<and> n \<le> nat (sint (timeoutSeconds * 10))"
    by (simp add: waitForFinger_serial_def)
  have b: "waitForFinger_serial timeoutSeconds env
           = Some (Inr (False, nat (sint (timeoutSeconds * 10))))
         \<and> waitForFinger_serial 1 env = Some (Inr (False, 10))"
    if no: "\<forall>k. \<not> (12 \<le> length (answer (env k)) \<and> answer (env k) ! 9 = 0x00)"
    using pollLoop_never [OF assms no, of "timeoutSeconds * 10" 0]
      pollLoop_never [OF assms no, of "1 * 10" 0] ten
    by (simp add: waitForFinger_serial_def)
  from a b show ?thesis by blast
qed

lemma answer_no_finger_line: "answer (no_finger_line k) = no_finger"
  by (simp add: answer_def no_finger_line_def no_finger_def arrived_Cons arrived_Nil in_time_def)

lemma settles_no_finger_line: "settles (no_finger_line k)"
  by (simp add: settles_def no_finger_line_def in_time_def)

theorem waitForFinger_returns_witness:
  "(\<forall>k. settles (no_finger_line k))
   \<and> waitForFinger_serial 1 no_finger_line = Some (Inr (False, 10))"
proof -
  have s: "\<forall>k. settles (no_finger_line k)"
    by (simp add: settles_no_finger_line)
  have no: "\<forall>k. \<not> (12 \<le> length (answer (no_finger_line k)) \<and> answer (no_finger_line k) ! 9 = 0x00)"
    by (simp add: answer_no_finger_line no_finger_def)
  from waitForFinger_returns [OF s, of 1] no s show ?thesis by blast
qed

section \<open>Properties of the resets\<close>

lemma clearVoted_at:
  "clearVoted i e a =
     (if a = EEPROM_VOTED_START + i \<and> e a \<noteq> 0xFF then e a AND 0x7F else e a)"
  by (simp add: clearVoted_def Let_def)

lemma fold_clearVoted:
  "fold clearVoted [0..<n] e a =
     (if (\<exists>i<n. a = EEPROM_VOTED_START + i) \<and> e a \<noteq> 0xFF then e a AND 0x7F else e a)"
proof (induction n arbitrary: a)
  case 0
  then show ?case by simp
next
  case (Suc n)
  have "fold clearVoted [0..<Suc n] e a = clearVoted n (fold clearVoted [0..<n] e) a"
    by simp
  also have "\<dots> =
     (if a = EEPROM_VOTED_START + n \<and> fold clearVoted [0..<n] e a \<noteq> 0xFF
      then fold clearVoted [0..<n] e a AND 0x7F else fold clearVoted [0..<n] e a)"
    by (rule clearVoted_at)
  also have "\<dots> =
     (if (\<exists>i<Suc n. a = EEPROM_VOTED_START + i) \<and> e a \<noteq> 0xFF then e a AND 0x7F else e a)"
    unfolding Suc.IH by (auto simp: less_Suc_eq)
  finally show ?case .
qed

lemma fold_fill:
  "fold (\<lambda>i e. e(EEPROM_VOTED_START + i := 0xFF)) [0..<n] e a =
     (if \<exists>i<n. a = EEPROM_VOTED_START + i then 0xFF else e a)"
  by (induction n) (auto simp: less_Suc_eq)

lemma id_bits_not_empty: "(v :: byte) AND 0x7F \<noteq> 0xFF"
proof
  assume "v AND 0x7F = 0xFF"
  then have "bit (v AND 0x7F) 7 = bit (0xFF :: byte) 7" by simp
  then show False by (simp add: bit_and_iff)
qed

lemma id_bits_not_voted: "\<not> bit ((v :: byte) AND 0x7F) 7"
  by (simp add: bit_and_iff)

lemma vote_cells_apart:
  "EEPROM_VOTE1 \<noteq> EEPROM_VOTED_START + i" "EEPROM_VOTE2 \<noteq> EEPROM_VOTED_START + i"
  "EEPROM_VOTE3 \<noteq> EEPROM_VOTED_START + i" "EEPROM_VOTE1 \<noteq> EEPROM_VOTE2"
  "EEPROM_VOTE1 \<noteq> EEPROM_VOTE3" "EEPROM_VOTE2 \<noteq> EEPROM_VOTE3"
  "EEPROM_VOTED_START + i \<noteq> EEPROM_VOTE1" "EEPROM_VOTED_START + i \<noteq> EEPROM_VOTE2"
  "EEPROM_VOTED_START + i \<noteq> EEPROM_VOTE3" "EEPROM_VOTE2 \<noteq> EEPROM_VOTE1"
  "EEPROM_VOTE3 \<noteq> EEPROM_VOTE1" "EEPROM_VOTE3 \<noteq> EEPROM_VOTE2"
  by (simp_all add: EEPROM_VOTE1_def EEPROM_VOTE2_def EEPROM_VOTE3_def EEPROM_VOTED_START_def)

text \<open>
  Claim C6. \<open>resetVotesOnly\<close> zeroes the three tallies, in the variables and in the EEPROM,
  leaves every Empty slot Empty and replaces every other slot by its low seven bits: the voted
  bit is clear, the ID is in place and the slot is still not Empty. \<open>resetSystem\<close> zeroes the
  tallies and sets each of the 25 slots to 0xFF.
\<close>

theorem reset_scoping:
  "(let w' = resetVotesOnly w in
      vote1 w' = 0 \<and> vote2 w' = 0 \<and> vote3 w' = 0
      \<and> eeprom w' EEPROM_VOTE1 = 0 \<and> eeprom w' EEPROM_VOTE2 = 0 \<and> eeprom w' EEPROM_VOTE3 = 0
      \<and> (\<forall>i<MAX_FINGERPRINTS.
            let old = eeprom w (EEPROM_VOTED_START + i); new = eeprom w' (EEPROM_VOTED_START + i)
            in (old = 0xFF \<longrightarrow> new = 0xFF)
               \<and> (old \<noteq> 0xFF \<longrightarrow> new = old AND 0x7F \<and> new \<noteq> 0xFF \<and> \<not> bit new 7)))
   \<and> (let w' = resetSystem w in
      vote1 w' = 0 \<and> vote2 w' = 0 \<and> vote3 w' = 0
      \<and> eeprom w' EEPROM_VOTE1 = 0 \<and> eeprom w' EEPROM_VOTE2 = 0 \<and> eeprom w' EEPROM_VOTE3 = 0
      \<and> (\<forall>i<MAX_FINGERPRINTS. eeprom w' (EEPROM_VOTED_START + i) = 0xFF))"
  by (simp add: resetVotesOnly_def resetSystem_def Let_def fold_clearVoted fold_fill
      id_bits_not_empty id_bits_not_voted vote_cells_apart)

theorem reset_scoping_witness:
  "eeprom (resetVotesOnly voted_world) 10 = 0x05
   \<and> eeprom (resetVotesOnly voted_world) 11 = 0x07
   \<and> eeprom (resetVotesOnly voted_world) 13 = 0xFF
   \<and> vote1 (resetVotesOnly voted_world) = 0
   \<and> eeprom (resetVotesOnly voted_world) 0 = 0
   \<and> eeprom (resetSystem voted_world) 10 = 0xFF
   \<and> eeprom (resetSystem voted_world) 34 = 0xFF"
proof -
  note r = reset_scoping [of voted_world, unfolded Let_def]
  from r have v: "vote1 (resetVotesOnly voted_world) = 0"
    and e: "eeprom (resetVotesOnly voted_world) EEPROM_VOTE1 = 0"
    by blast+
  from r have slots: "\<forall>i<MAX_FINGERPRINTS.
      (eeprom voted_world (EEPROM_VOTED_START + i) = 0xFF \<longrightarrow>
         eeprom (resetVotesOnly voted_world) (EEPROM_VOTED_START + i) = 0xFF)
      \<and> (eeprom voted_world (EEPROM_VOTED_START + i) \<noteq> 0xFF \<longrightarrow>
         eeprom (resetVotesOnly voted_world) (EEPROM_VOTED_START + i)
           = eeprom voted_world (EEPROM_VOTED_START + i) AND 0x7F)"
    by blast
  from r have wiped: "\<forall>i<MAX_FINGERPRINTS. eeprom (resetSystem voted_world) (EEPROM_VOTED_START + i) = 0xFF"
    by blast
  from slots [rule_format, of 0] slots [rule_format, of 1] slots [rule_format, of 3]
    wiped [rule_format, of 0] wiped [rule_format, of 24] v e
  show ?thesis
    by (simp add: voted_world_def MAX_FINGERPRINTS_def EEPROM_VOTED_START_def EEPROM_VOTE1_def)
qed

section \<open>Frame of the sensor operations\<close>

lemma waitLoop_frame: "\<exists>cs n. snd (waitLoop timeout w) = w\<lparr>commands := cs, nread := n\<rparr>"
proof (induction "nat (sint timeout)" arbitrary: timeout w)
  case 0
  then have "\<not> 0 <s timeout" by (simp add: word_sless_alt)
  then have "snd (waitLoop timeout w) = w\<lparr>commands := commands w, nread := nread w\<rparr>"
    by (simp add: waitLoop_stop)
  then show ?case by blast
next
  case (Suc n)
  then have pos: "0 <s timeout" by (simp add: word_sless_alt)
  show ?case
  proof (cases "12 \<le> length (replies w (nread w)) \<and> replies w (nread w) ! 9 = 0x00")
    case True
    with pos have "snd (waitLoop timeout w) =
        w\<lparr>commands := commands w @ [(GET_IMAGE, [])], nread := nread w + 1\<rparr>"
      by (simp add: waitLoop_success)
    then show ?thesis by blast
  next
    case False
    let ?w = "w\<lparr>commands := commands w @ [(GET_IMAGE, [])], nread := nread w + 1\<rparr>"
    from pos Suc.hyps(2) have "n = nat (sint (timeout - 1))" by (simp add: sint_dec)
    from Suc.hyps(1) [OF this, of ?w] obtain cs m where
      "snd (waitLoop (timeout - 1) ?w) = ?w\<lparr>commands := cs, nread := m\<rparr>" by blast
    with pos False have "snd (waitLoop timeout w) = w\<lparr>commands := cs, nread := m\<rparr>"
      by (simp add: waitLoop_retry)
    then show ?thesis by blast
  qed
qed

lemma waitForFinger_frame:
  assumes "waitForFinger t w = (r, w')"
  shows "eeprom w' = eeprom w" "vote1 w' = vote1 w" "vote2 w' = vote2 w" "vote3 w' = vote3 w"
    "replies w' = replies w" "totalFingerprints w' = totalFingerprints w"
proof -
  from waitLoop_frame [of "t * 10" w] assms obtain cs n where "w' = w\<lparr>commands := cs, nread := n\<rparr>"
    by (auto simp: waitForFinger_def)
  then show "eeprom w' = eeprom w" "vote1 w' = vote1 w" "vote2 w' = vote2 w" "vote3 w' = vote3 w"
    "replies w' = replies w" "totalFingerprints w' = totalFingerprints w"
    by simp_all
qed

lemma imageToTemplate_frame:
  assumes "imageToTemplate b w = (r, w')"
  shows "eeprom w' = eeprom w" "vote1 w' = vote1 w" "vote2 w' = vote2 w" "vote3 w' = vote3 w"
  using assms
  by (auto simp: imageToTemplate_def call_sendCommand_def call_readResponse_def Let_def
      split: if_splits)

lemma sensor_match_frame:
  assumes "sensor_match w = Some (matchID, w')"
  shows "eeprom w' = eeprom w" "vote1 w' = vote1 w" "vote2 w' = vote2 w" "vote3 w' = vote3 w"
proof -
  obtain f w1 where f: "waitForFinger 15 w = (f, w1)" by (cases "waitForFinger 15 w")
  obtain t w2 where t: "imageToTemplate 1 w1 = (t, w2)" by (cases "imageToTemplate 1 w1")
  from assms f t have w': "w' = w2\<lparr>commands := commands w2 @ [(SEARCH, [0x01, 0x00, 0x00, 0x00, 0x7F])],
      nread := nread w2 + 1\<rparr>"
    by (auto simp: sensor_match_def call_sendCommand_def call_readResponse_def Let_def
        split: if_splits)
  from waitForFinger_frame [OF f] imageToTemplate_frame [OF t] w'
  show "eeprom w' = eeprom w" "vote1 w' = vote1 w" "vote2 w' = vote2 w" "vote3 w' = vote3 w"
    by simp_all
qed

section \<open>The loops over the registry\<close>

lemma first_or_later:
  "(\<exists>j\<ge>i. j < (n::nat) \<and> P j) \<longleftrightarrow> (i < n \<and> P i) \<or> (\<exists>j\<ge>i + 1. j < n \<and> P j)"
proof
  assume "\<exists>j\<ge>i. j < n \<and> P j"
  then obtain j where j: "i \<le> j" "j < n" "P j" by blast
  show "(i < n \<and> P i) \<or> (\<exists>j\<ge>i + 1. j < n \<and> P j)"
  proof (cases "j = i")
    case True
    with j show ?thesis by simp
  next
    case False
    with j have "i + 1 \<le> j" by simp
    with j show ?thesis by blast
  qed
next
  assume "(i < n \<and> P i) \<or> (\<exists>j\<ge>i + 1. j < n \<and> P j)"
  then show "\<exists>j\<ge>i. j < n \<and> P j"
  proof
    assume "i < n \<and> P i"
    then show ?thesis by blast
  next
    assume "\<exists>j\<ge>i + 1. j < n \<and> P j"
    then obtain j where "i + 1 \<le> j" "j < n" "P j" by blast
    then have "i \<le> j \<and> j < n \<and> P j" by simp
    then show ?thesis by blast
  qed
qed

lemma alreadyVoted_iff:
  "alreadyVoted matchID i e \<longleftrightarrow>
     (\<exists>j\<ge>i. j < MAX_FINGERPRINTS \<and> ucast (e (EEPROM_VOTED_START + j)) = (matchID OR 0x80))"
proof (induction matchID i e rule: alreadyVoted.induct)
  case (1 matchID i e)
  show ?case
  proof (cases "i < MAX_FINGERPRINTS")
    case False
    have "alreadyVoted matchID i e = False"
      using False by (subst alreadyVoted.simps) simp
    moreover from False have "\<not> (\<exists>j\<ge>i. j < MAX_FINGERPRINTS
        \<and> ucast (e (EEPROM_VOTED_START + j)) = (matchID OR 0x80))"
      by simp
    ultimately show ?thesis by blast
  next
    case True
    show ?thesis
    proof (cases "ucast (e (EEPROM_VOTED_START + i)) = (matchID OR 0x80)")
      case hit: True
      have "alreadyVoted matchID i e = True"
        using True hit by (subst alreadyVoted.simps) simp
      with True hit show ?thesis by blast
    next
      case miss: False
      have "alreadyVoted matchID i e = alreadyVoted matchID (i + 1) e"
        using True miss by (subst alreadyVoted.simps) simp
      also note "1.IH" [OF True miss]
      finally show ?thesis
        using miss by (subst first_or_later) simp
    qed
  qed
qed

lemma markLoop_none:
  assumes "\<forall>j\<ge>i. j < MAX_FINGERPRINTS \<longrightarrow> ucast (e (EEPROM_VOTED_START + j)) \<noteq> id'"
  shows "markLoop id' i e = e"
  using assms
proof (induction id' i e rule: markLoop.induct)
  case (1 id' i e)
  show ?case
  proof (cases "i < MAX_FINGERPRINTS")
    case False
    then show ?thesis by (subst markLoop.simps) simp
  next
    case True
    with "1.prems" have miss: "ucast (e (EEPROM_VOTED_START + i)) \<noteq> id'" by simp
    from "1.prems" have rest: "\<forall>j\<ge>i + 1. j < MAX_FINGERPRINTS \<longrightarrow> ucast (e (EEPROM_VOTED_START + j)) \<noteq> id'"
      by simp
    have "markLoop id' i e = markLoop id' (i + 1) e"
      using True miss by (subst markLoop.simps) (simp add: Let_def)
    also have "\<dots> = e"
      using True miss rest by (rule "1.IH" [OF _ refl])
    finally show ?thesis .
  qed
qed

lemma markLoop_first:
  assumes "i \<le> j" and "j < MAX_FINGERPRINTS" and "ucast (e (EEPROM_VOTED_START + j)) = id'"
    and "\<forall>k\<ge>i. k < j \<longrightarrow> ucast (e (EEPROM_VOTED_START + k)) \<noteq> id'"
  shows "markLoop id' i e = e(EEPROM_VOTED_START + j := ucast (id' OR 0x80))"
  using assms
proof (induction id' i e rule: markLoop.induct)
  case (1 id' i e)
  from "1.prems" have lt: "i < MAX_FINGERPRINTS" by simp
  show ?case
  proof (cases "ucast (e (EEPROM_VOTED_START + i)) = id'")
    case True
    with "1.prems" have "j = i" by (metis le_neq_implies_less order_refl)
    with True lt show ?thesis by (subst markLoop.simps) (simp add: Let_def)
  next
    case False
    with "1.prems" have "i \<noteq> j" by blast
    with "1.prems" have le: "i + 1 \<le> j" by simp
    from "1.prems" have rest: "\<forall>k\<ge>i + 1. k < j \<longrightarrow> ucast (e (EEPROM_VOTED_START + k)) \<noteq> id'"
      by simp
    have "markLoop id' i e = markLoop id' (i + 1) e"
      using lt False by (subst markLoop.simps) (simp add: Let_def)
    also have "\<dots> = e(EEPROM_VOTED_START + j := ucast (id' OR 0x80))"
      using lt False le "1.prems"(2,3) rest by (rule "1.IH" [OF _ refl])
    finally show ?thesis .
  qed
qed

lemma releaseLoop_none:
  assumes "\<forall>j\<ge>i. j < MAX_FINGERPRINTS \<longrightarrow>
     ucast (e (EEPROM_VOTED_START + j)) \<noteq> id' \<and> ucast (e (EEPROM_VOTED_START + j)) \<noteq> (id' OR 0x80)"
  shows "releaseLoop id' i e = e"
  using assms
proof (induction id' i e rule: releaseLoop.induct)
  case (1 id' i e)
  show ?case
  proof (cases "i < MAX_FINGERPRINTS")
    case False
    then show ?thesis by (subst releaseLoop.simps) simp
  next
    case True
    with "1.prems" have miss: "\<not> (ucast (e (EEPROM_VOTED_START + i)) = id'
        \<or> ucast (e (EEPROM_VOTED_START + i)) = (id' OR 0x80))" by simp
    from "1.prems" have rest: "\<forall>j\<ge>i + 1. j < MAX_FINGERPRINTS \<longrightarrow>
        ucast (e (EEPROM_VOTED_START + j)) \<noteq> id' \<and> ucast (e (EEPROM_VOTED_START + j)) \<noteq> (id' OR 0x80)"
      by simp
    have "releaseLoop id' i e = releaseLoop id' (i + 1) e"
      using True miss by (subst releaseLoop.simps) (simp add: Let_def)
    also have "\<dots> = e"
      using True miss rest by (rule "1.IH" [OF _ refl])
    finally show ?thesis .
  qed
qed

lemma releaseLoop_first:
  assumes "i \<le> j" and "j < MAX_FINGERPRINTS"
    and "ucast (e (EEPROM_VOTED_START + j)) = id' \<or> ucast (e (EEPROM_VOTED_START + j)) = (id' OR 0x80)"
    and "\<forall>k\<ge>i. k < j \<longrightarrow>
      ucast (e (EEPROM_VOTED_START + k)) \<noteq> id' \<and> ucast (e (EEPROM_VOTED_START + k)) \<noteq> (id' OR 0x80)"
  shows "releaseLoop id' i e = e(EEPROM_VOTED_START + j := 0xFF)"
  using assms
proof (induction id' i e rule: releaseLoop.induct)
  case (1 id' i e)
  from "1.prems" have lt: "i < MAX_FINGERPRINTS" by simp
  show ?case
  proof (cases "ucast (e (EEPROM_VOTED_START + i)) = id'
        \<or> ucast (e (EEPROM_VOTED_START + i)) = (id' OR 0x80)")
    case True
    with "1.prems" have "j = i" by (metis le_neq_implies_less order_refl)
    with True lt show ?thesis by (subst releaseLoop.simps) (simp add: Let_def)
  next
    case False
    with "1.prems" have "i \<noteq> j" by blast
    with "1.prems" have le: "i + 1 \<le> j" by simp
    from "1.prems" have rest: "\<forall>k\<ge>i + 1. k < j \<longrightarrow>
        ucast (e (EEPROM_VOTED_START + k)) \<noteq> id' \<and> ucast (e (EEPROM_VOTED_START + k)) \<noteq> (id' OR 0x80)"
      by simp
    have "releaseLoop id' i e = releaseLoop id' (i + 1) e"
      using lt False by (subst releaseLoop.simps) (simp add: Let_def)
    also have "\<dots> = e(EEPROM_VOTED_START + j := 0xFF)"
      using lt False le "1.prems"(2,3) rest by (rule "1.IH" [OF _ refl])
    finally show ?thesis .
  qed
qed

lemma allocateLoop_full:
  assumes "\<forall>j\<ge>i. j < MAX_FINGERPRINTS \<longrightarrow> e (EEPROM_VOTED_START + j) \<noteq> 0xFF"
  shows "allocateLoop id' i e = e"
  using assms
proof (induction id' i e rule: allocateLoop.induct)
  case (1 id' i e)
  show ?case
  proof (cases "i < MAX_FINGERPRINTS")
    case False
    then show ?thesis by (subst allocateLoop.simps) simp
  next
    case True
    with "1.prems" have miss: "e (EEPROM_VOTED_START + i) \<noteq> 0xFF" by simp
    from "1.prems" have rest: "\<forall>j\<ge>i + 1. j < MAX_FINGERPRINTS \<longrightarrow> e (EEPROM_VOTED_START + j) \<noteq> 0xFF"
      by simp
    have "allocateLoop id' i e = allocateLoop id' (i + 1) e"
      using True miss by (subst allocateLoop.simps) simp
    also have "\<dots> = e"
      using True miss rest by (rule "1.IH")
    finally show ?thesis .
  qed
qed

lemma allocateLoop_first:
  assumes "i \<le> j" and "j < MAX_FINGERPRINTS" and "e (EEPROM_VOTED_START + j) = 0xFF"
    and "\<forall>k\<ge>i. k < j \<longrightarrow> e (EEPROM_VOTED_START + k) \<noteq> 0xFF"
  shows "allocateLoop id' i e = e(EEPROM_VOTED_START + j := ucast id')"
  using assms
proof (induction id' i e rule: allocateLoop.induct)
  case (1 id' i e)
  from "1.prems" have lt: "i < MAX_FINGERPRINTS" by simp
  show ?case
  proof (cases "e (EEPROM_VOTED_START + i) = 0xFF")
    case True
    with "1.prems" have "j = i" by (metis le_neq_implies_less order_refl)
    with True lt show ?thesis by (subst allocateLoop.simps) simp
  next
    case False
    with "1.prems" have "i \<noteq> j" by blast
    with "1.prems" have le: "i + 1 \<le> j" by simp
    from "1.prems" have rest: "\<forall>k\<ge>i + 1. k < j \<longrightarrow> e (EEPROM_VOTED_START + k) \<noteq> 0xFF"
      by simp
    have "allocateLoop id' i e = allocateLoop id' (i + 1) e"
      using lt False by (subst allocateLoop.simps) simp
    also have "\<dots> = e(EEPROM_VOTED_START + j := ucast id')"
      using lt False le "1.prems"(2,3) rest by (rule "1.IH")
    finally show ?thesis .
  qed
qed

section \<open>Properties of verifyAndVote\<close>

lemma verifyAndVote_matched:
  assumes "sensor_match w = Some (matchID, w')"
  shows "verifyAndVote presses w =
     (if alreadyVoted matchID 0 (eeprom w') then (AlreadyVoted matchID, w')
      else castVote matchID presses w')"
  using assms
  by (auto simp: sensor_match_def verifyAndVote_def Let_def split: prod.splits if_splits)


lemma castVote_1:
  "cand1 b \<Longrightarrow> castVote voterID (b # bs) w =
     (VoteRecorded 1, w\<lparr>vote1 := vote1 w + 1,
        eeprom := markLoop voterID 0 ((eeprom w)(EEPROM_VOTE1 := ucast (vote1 w + 1)))\<rparr>)"
  by (simp add: Let_def markAsVoted_def)

lemma castVote_2:
  "\<not> cand1 b \<Longrightarrow> cand2 b \<Longrightarrow> castVote voterID (b # bs) w =
     (VoteRecorded 2, w\<lparr>vote2 := vote2 w + 1,
        eeprom := markLoop voterID 0 ((eeprom w)(EEPROM_VOTE2 := ucast (vote2 w + 1)))\<rparr>)"
  by (simp add: Let_def markAsVoted_def)

lemma castVote_3:
  "\<not> cand1 b \<Longrightarrow> \<not> cand2 b \<Longrightarrow> cand3 b \<Longrightarrow> castVote voterID (b # bs) w =
     (VoteRecorded 3, w\<lparr>vote3 := vote3 w + 1,
        eeprom := markLoop voterID 0 ((eeprom w)(EEPROM_VOTE3 := ucast (vote3 w + 1)))\<rparr>)"
  by (simp add: Let_def markAsVoted_def)

lemma castVote_none:
  "\<not> cand1 b \<Longrightarrow> \<not> cand2 b \<Longrightarrow> \<not> cand3 b \<Longrightarrow> castVote voterID (b # bs) w = castVote voterID bs w"
  by simp

lemma castVote_cases:
  "castVote voterID presses w = (out, w') \<Longrightarrow>
     (out = VoteTimeout \<and> w' = w)
     \<or> (out = VoteRecorded 1
        \<and> w' = w\<lparr>vote1 := vote1 w + 1,
                  eeprom := markLoop voterID 0 ((eeprom w)(EEPROM_VOTE1 := ucast (vote1 w + 1)))\<rparr>)
     \<or> (out = VoteRecorded 2
        \<and> w' = w\<lparr>vote2 := vote2 w + 1,
                  eeprom := markLoop voterID 0 ((eeprom w)(EEPROM_VOTE2 := ucast (vote2 w + 1)))\<rparr>)
     \<or> (out = VoteRecorded 3
        \<and> w' = w\<lparr>vote3 := vote3 w + 1,
                  eeprom := markLoop voterID 0 ((eeprom w)(EEPROM_VOTE3 := ucast (vote3 w + 1)))\<rparr>)"
proof (induction presses)
  case Nil
  then show ?case by simp
next
  case (Cons b bs)
  consider "cand1 b" | "\<not> cand1 b" "cand2 b" | "\<not> cand1 b" "\<not> cand2 b" "cand3 b"
    | "\<not> cand1 b" "\<not> cand2 b" "\<not> cand3 b"
    by blast
  then show ?case
  proof cases
    case 1
    from Cons.prems show ?thesis unfolding castVote_1 [OF 1] by blast
  next
    case 2
    from Cons.prems show ?thesis unfolding castVote_2 [OF 2] by blast
  next
    case 3
    from Cons.prems show ?thesis unfolding castVote_3 [OF 3] by blast
  next
    case 4
    from Cons.prems have "castVote voterID bs w = (out, w')" unfolding castVote_none [OF 4] .
    then show ?thesis by (rule Cons.IH)
  qed
qed

text \<open>
  The comparison of the code, slot byte against \<open>matchID | 0x80\<close>, in terms of the voted bit
  and the low seven bits of the slot.
\<close>

lemma bit_128_int: "bit (128 :: int) n \<longleftrightarrow> n = 7"
proof -
  have "bit (2 ^ 7 :: int) n \<longleftrightarrow> n = 7" by (simp only: bit_exp_iff) auto
  then show ?thesis by simp
qed

lemma bit_127_int: "bit (127 :: int) n \<longleftrightarrow> n < 7"
proof -
  have "bit (mask 7 :: int) n \<longleftrightarrow> n < 7" by (simp only: bit_mask_iff) auto
  then show ?thesis by (simp add: mask_eq_exp_minus_1)
qed

lemma voted_slot_iff:
  assumes "matchID < 0x80"
  shows "ucast (slot :: byte) = (matchID OR 0x80 :: cint)
     \<longleftrightarrow> bit slot 7 \<and> ucast (slot AND 0x7F) = matchID"
proof -
  from assms have "matchID < 2 ^ 7" by simp
  then have m: "matchID AND mask 7 = matchID" by (rule less_mask_eq)
  have lo: "n < 7" if "bit matchID n" for n
  proof -
    from that have "bit (matchID AND mask 7) n" by (simp only: m)
    then show ?thesis by (simp add: bit_simps)
  qed
  have split: "(ucast slot :: cint) = ucast (slot AND 0x7F) OR (if bit slot 7 then 0x80 else 0)"
  proof (rule bit_word_eqI)
    fix n assume "n < LENGTH(16)"
    have "bit slot n \<Longrightarrow> n < 8" by (auto dest: bit_imp_le_length)
    then have "bit slot n \<Longrightarrow> n < 7 \<or> n = 7" by fastforce
    then show "bit (ucast slot :: cint) n
        \<longleftrightarrow> bit (ucast (slot AND 0x7F) OR (if bit slot 7 then 0x80 else 0) :: cint) n"
      by (auto simp add: bit_or_iff bit_ucast_iff bit_and_iff bit_128_int bit_127_int)
  qed
  have low: "\<not> bit (ucast (slot AND 0x7F) :: cint) 7"
    by (simp add: bit_ucast_iff bit_and_iff bit_127_int)
  show ?thesis
  proof
    assume eq: "ucast slot = (matchID OR 0x80)"
    have "bit (ucast slot :: cint) 7 = bit slot 7" by (simp add: bit_ucast_iff)
    moreover have "bit (matchID OR 0x80) 7" by (simp add: bit_or_iff bit_128_int)
    ultimately have b7: "bit slot 7" using eq by simp
    have "(ucast (slot AND 0x7F) :: cint) = matchID"
    proof (rule bit_word_eqI)
      fix n assume "n < LENGTH(16)"
      from eq split b7 have "bit (matchID OR 0x80) n = bit (ucast (slot AND 0x7F) OR 0x80 :: cint) n"
        by simp
      then have e: "bit matchID n \<or> n = 7 \<longleftrightarrow> bit (ucast (slot AND 0x7F) :: cint) n \<or> n = 7"
        by (auto simp add: bit_or_iff bit_128_int)
      show "bit (ucast (slot AND 0x7F) :: cint) n \<longleftrightarrow> bit matchID n"
      proof (cases "n = 7")
        case True
        with low lo [of 7] show ?thesis by auto
      next
        case False
        with e show ?thesis by simp
      qed
    qed
    with b7 show "bit slot 7 \<and> ucast (slot AND 0x7F) = matchID" by simp
  next
    assume r: "bit slot 7 \<and> ucast (slot AND 0x7F) = matchID"
    with split show "ucast slot = (matchID OR 0x80)" by simp
  qed
qed


lemma id_bits_small: "(ucast ((slot :: byte) AND 0x7F) :: cint) < 0x80"
proof -
  have "slot AND 0x7F \<le> 0x7F" by (rule word_and_le1)
  then have "unat (slot AND 0x7F) \<le> 127" by (simp add: word_le_nat_alt)
  moreover have "unat (ucast (slot AND 0x7F) :: cint) = take_bit 16 (unat (slot AND 0x7F))"
    by (simp add: unsigned_ucast_eq)
  moreover have "take_bit 16 (unat (slot AND 0x7F)) = unat (slot AND 0x7F)"
    using \<open>unat (slot AND 0x7F) \<le> 127\<close> by (simp add: take_bit_nat_eq_self)
  ultimately show ?thesis by (simp add: word_less_nat_alt)
qed

lemma voted_slot_found:
  assumes "bit (slot :: byte) 7" and "ucast (slot AND 0x7F) = (matchID :: cint)"
  shows "ucast slot = (matchID OR 0x80)"
proof -
  from assms(2) id_bits_small [of slot] have "matchID < 0x80" by simp
  from voted_slot_iff [OF this, of slot] assms show ?thesis by simp
qed

text \<open>
  Claim C3. When the sensor has reported a match and some slot holds the matched ID in its
  low seven bits with the voted bit set, \<open>verifyAndVote\<close> ends with "Already Voted!"
  whatever the candidate buttons do: \<open>castVote\<close> is not reached. The three tallies and the
  whole EEPROM, so every registry slot, are as before the call.
\<close>

theorem verifyAndVote_rejects_voted:
  assumes "sensor_match w = Some (matchID, w1)"
    and "\<exists>i<MAX_FINGERPRINTS. bit (eeprom w (EEPROM_VOTED_START + i)) 7
          \<and> ucast (eeprom w (EEPROM_VOTED_START + i) AND 0x7F) = matchID"
  shows "verifyAndVote presses w = (AlreadyVoted matchID, w1)
    \<and> eeprom w1 = eeprom w \<and> vote1 w1 = vote1 w \<and> vote2 w1 = vote2 w \<and> vote3 w1 = vote3 w"
proof -
  note frame = sensor_match_frame [OF assms(1)]
  from assms(2) have "\<exists>i<MAX_FINGERPRINTS.
      ucast (eeprom w (EEPROM_VOTED_START + i)) = (matchID OR 0x80)"
    using voted_slot_found by blast
  with frame(1) have "alreadyVoted matchID 0 (eeprom w1)"
    by (simp add: alreadyVoted_iff)
  with verifyAndVote_matched [OF assms(1), of presses] frame show ?thesis
    by simp
qed

lemma sensor_match_matching5:
  "sensor_match (matching5 w) =
     Some (5, (matching5 w)\<lparr>commands := commands w @ [(GET_IMAGE, []), (IMAGE_TO_TZ, [1]),
                 (SEARCH, [0x01, 0x00, 0x00, 0x00, 0x7F])], nread := nread w + 3\<rparr>)"
  if "nread w = 0" for w
  using that
  by (simp add: sensor_match_def waitForFinger_def waitLoop_success word_sless_alt
      imageToTemplate_def call_sendCommand_def call_readResponse_def matching5_def ack_def
      found5_def Let_def)

theorem verifyAndVote_rejects_voted_witness:
  "verifyAndVote [\<lparr>cand1 = True, cand2 = False, cand3 = False\<rparr>] (matching5 voted_world) =
     (AlreadyVoted 5,
      (matching5 voted_world)\<lparr>commands := [(GET_IMAGE, []), (IMAGE_TO_TZ, [1]),
          (SEARCH, [0x01, 0x00, 0x00, 0x00, 0x7F])], nread := 3\<rparr>)"
proof -
  have m: "sensor_match (matching5 voted_world) =
     Some (5, (matching5 voted_world)\<lparr>commands := [(GET_IMAGE, []), (IMAGE_TO_TZ, [1]),
          (SEARCH, [0x01, 0x00, 0x00, 0x00, 0x7F])], nread := 3\<rparr>)"
    using sensor_match_matching5 [of voted_world] by (simp add: voted_world_def)
  have "0 < MAX_FINGERPRINTS
      \<and> bit (eeprom (matching5 voted_world) (EEPROM_VOTED_START + 0)) 7
      \<and> ucast (eeprom (matching5 voted_world) (EEPROM_VOTED_START + 0) AND 0x7F) = (5 :: cint)"
    by (simp add: MAX_FINGERPRINTS_def EEPROM_VOTED_START_def matching5_def voted_world_def)
  then have v: "\<exists>i<MAX_FINGERPRINTS.
      bit (eeprom (matching5 voted_world) (EEPROM_VOTED_START + i)) 7
      \<and> ucast (eeprom (matching5 voted_world) (EEPROM_VOTED_START + i) AND 0x7F) = (5 :: cint)"
    by blast
  from verifyAndVote_rejects_voted [OF m v] show ?thesis by blast
qed

lemma castVote_unregistered:
  assumes unreg: "\<forall>i<MAX_FINGERPRINTS. ucast (eeprom w (EEPROM_VOTED_START + i)) \<noteq> voterID
        \<and> ucast (eeprom w (EEPROM_VOTED_START + i)) \<noteq> (voterID OR 0x80)"
    and cv: "castVote voterID presses w = (out, w')"
  shows "(out = VoteTimeout \<and> w' = w)
     \<or> (out = VoteRecorded 1
        \<and> w' = w\<lparr>vote1 := vote1 w + 1, eeprom := (eeprom w)(EEPROM_VOTE1 := ucast (vote1 w + 1))\<rparr>)
     \<or> (out = VoteRecorded 2
        \<and> w' = w\<lparr>vote2 := vote2 w + 1, eeprom := (eeprom w)(EEPROM_VOTE2 := ucast (vote2 w + 1))\<rparr>)
     \<or> (out = VoteRecorded 3
        \<and> w' = w\<lparr>vote3 := vote3 w + 1, eeprom := (eeprom w)(EEPROM_VOTE3 := ucast (vote3 w + 1))\<rparr>)"
proof -
  have none: "markLoop voterID 0 ((eeprom w)(a := v)) = (eeprom w)(a := v)"
    if "\<forall>j. EEPROM_VOTED_START + j \<noteq> a" for a v
    by (rule markLoop_none) (use unreg that in simp)
  from castVote_cases [OF cv] show ?thesis
    by (simp add: none vote_cells_apart)
qed

lemma castVote_unregistered_slots:
  assumes unreg: "\<forall>i<MAX_FINGERPRINTS. ucast (eeprom w (EEPROM_VOTED_START + i)) \<noteq> voterID
        \<and> ucast (eeprom w (EEPROM_VOTED_START + i)) \<noteq> (voterID OR 0x80)"
  shows "eeprom (snd (castVote voterID presses w)) (EEPROM_VOTED_START + i) = eeprom w (EEPROM_VOTED_START + i)"
proof -
  obtain out w' where cv: "castVote voterID presses w = (out, w')"
    by (cases "castVote voterID presses w")
  from castVote_unregistered [OF unreg cv] cv show ?thesis
    by (auto simp: vote_cells_apart)
qed

lemma revote_unregistered_slots:
  assumes "\<forall>i<MAX_FINGERPRINTS. ucast (eeprom w (EEPROM_VOTED_START + i)) \<noteq> voterID
        \<and> ucast (eeprom w (EEPROM_VOTED_START + i)) \<noteq> (voterID OR 0x80)"
  shows "eeprom (revote voterID rest w) (EEPROM_VOTED_START + i) = eeprom w (EEPROM_VOTED_START + i)"
  using assms
proof (induction rest arbitrary: w)
  case Nil
  then show ?case by simp
next
  case (Cons presses rest)
  let ?w = "snd (castVote voterID presses w)"
  have same: "eeprom ?w (EEPROM_VOTED_START + j) = eeprom w (EEPROM_VOTED_START + j)" for j
    using Cons.prems by (rule castVote_unregistered_slots)
  with Cons.prems have "\<forall>i<MAX_FINGERPRINTS. ucast (eeprom ?w (EEPROM_VOTED_START + i)) \<noteq> voterID
        \<and> ucast (eeprom ?w (EEPROM_VOTED_START + i)) \<noteq> (voterID OR 0x80)"
    by simp
  from Cons.IH [OF this] same show ?case by simp
qed

lemma selected_Nil: "selected [] = None"
  by (simp add: selected_def)

lemma selected_Cons:
  "selected (b # bs) =
     (if cand1 b then Some 1 else if cand2 b then Some 2 else if cand3 b then Some 3
      else selected bs)"
  by (simp add: selected_def)

lemma selected_range: "selected presses \<in> {None, Some 1, Some 2, Some 3}"
  by (induction presses) (simp_all add: selected_Nil selected_Cons)

lemma castVote_selected:
  "fst (castVote voterID presses w) =
     (case selected presses of None \<Rightarrow> VoteTimeout | Some c \<Rightarrow> VoteRecorded c)"
proof (induction presses)
  case Nil
  then show ?case by (simp add: selected_Nil)
next
  case (Cons b bs)
  consider "cand1 b" | "\<not> cand1 b" "cand2 b" | "\<not> cand1 b" "\<not> cand2 b" "cand3 b"
    | "\<not> cand1 b" "\<not> cand2 b" "\<not> cand3 b"
    by blast
  then show ?case
  proof cases
    case 1
    then show ?thesis unfolding castVote_1 [OF 1] by (simp add: selected_Cons)
  next
    case 2
    then show ?thesis unfolding castVote_2 [OF 2] by (simp add: selected_Cons)
  next
    case 3
    then show ?thesis unfolding castVote_3 [OF 3] by (simp add: selected_Cons)
  next
    case 4
    with Cons.IH show ?thesis unfolding castVote_none [OF 4] by (simp add: selected_Cons)
  qed
qed

text \<open>
  Claim C4. When the sensor has reported a match for an ID that no slot holds, neither as the
  ID nor as the ID with the voted bit, the eligibility check passes and \<open>verifyAndVote\<close>
  goes on to \<open>castVote\<close>. What the voter selects decides the outcome: without a selection the
  vote times out and nothing changes; a selection of candidate 1, 2 or 3 is recorded for that
  candidate, whose tally is incremented and written to its EEPROM cell, and that cell is the
  only one written, since \<open>markAsVoted\<close> finds no slot. So all 25 slots are as before, and
  after this vote and any number of further votes cast for the same ID the eligibility check
  still passes.
\<close>

theorem unregistered_match_votes_again:
  assumes m: "sensor_match w = Some (matchID, w1)"
    and unreg: "\<forall>i<MAX_FINGERPRINTS. ucast (eeprom w (EEPROM_VOTED_START + i)) \<noteq> matchID
        \<and> ucast (eeprom w (EEPROM_VOTED_START + i)) \<noteq> (matchID OR 0x80)"
  shows "verifyAndVote presses w = castVote matchID presses w1
    \<and> (let (out, w2) = verifyAndVote presses w in
         (selected presses = None \<longrightarrow> out = VoteTimeout \<and> eeprom w2 = eeprom w
             \<and> vote1 w2 = vote1 w \<and> vote2 w2 = vote2 w \<and> vote3 w2 = vote3 w)
         \<and> (selected presses = Some 1 \<longrightarrow> out = VoteRecorded 1
             \<and> eeprom w2 = (eeprom w)(EEPROM_VOTE1 := ucast (vote1 w + 1))
             \<and> vote1 w2 = vote1 w + 1 \<and> vote2 w2 = vote2 w \<and> vote3 w2 = vote3 w)
         \<and> (selected presses = Some 2 \<longrightarrow> out = VoteRecorded 2
             \<and> eeprom w2 = (eeprom w)(EEPROM_VOTE2 := ucast (vote2 w + 1))
             \<and> vote1 w2 = vote1 w \<and> vote2 w2 = vote2 w + 1 \<and> vote3 w2 = vote3 w)
         \<and> (selected presses = Some 3 \<longrightarrow> out = VoteRecorded 3
             \<and> eeprom w2 = (eeprom w)(EEPROM_VOTE3 := ucast (vote3 w + 1))
             \<and> vote1 w2 = vote1 w \<and> vote2 w2 = vote2 w \<and> vote3 w2 = vote3 w + 1)
         \<and> selected presses \<in> {None, Some 1, Some 2, Some 3}
         \<and> (\<forall>i<MAX_FINGERPRINTS. eeprom w2 (EEPROM_VOTED_START + i) = eeprom w (EEPROM_VOTED_START + i))
         \<and> (\<forall>rest. \<not> alreadyVoted matchID 0 (eeprom (revote matchID rest w2))))"
proof -
  note frame = sensor_match_frame [OF m]
  from unreg frame(1) have unreg1: "\<forall>i<MAX_FINGERPRINTS.
        ucast (eeprom w1 (EEPROM_VOTED_START + i)) \<noteq> matchID
        \<and> ucast (eeprom w1 (EEPROM_VOTED_START + i)) \<noteq> (matchID OR 0x80)"
    by simp
  then have "\<not> alreadyVoted matchID 0 (eeprom w1)"
    by (simp add: alreadyVoted_iff)
  with verifyAndVote_matched [OF m, of presses]
  have offered: "verifyAndVote presses w = castVote matchID presses w1"
    by simp
  obtain out w2 where cv: "castVote matchID presses w1 = (out, w2)"
    by (cases "castVote matchID presses w1")
  have slots2: "eeprom w2 (EEPROM_VOTED_START + i) = eeprom w (EEPROM_VOTED_START + i)" for i
    using castVote_unregistered_slots [OF unreg1, of presses i] cv frame(1) by simp
  with unreg have unreg2: "\<forall>i<MAX_FINGERPRINTS.
        ucast (eeprom w2 (EEPROM_VOTED_START + i)) \<noteq> matchID
        \<and> ucast (eeprom w2 (EEPROM_VOTED_START + i)) \<noteq> (matchID OR 0x80)"
    by simp
  have again: "\<not> alreadyVoted matchID 0 (eeprom (revote matchID rest w2))" for rest
    using unreg2 by (simp add: alreadyVoted_iff revote_unregistered_slots [OF unreg2])
  from castVote_selected [of matchID presses w1] cv
  have sel: "out = (case selected presses of None \<Rightarrow> VoteTimeout | Some c \<Rightarrow> VoteRecorded c)"
    by simp
  from castVote_unregistered [OF unreg1 cv]
  consider (timeout) "out = VoteTimeout" "w2 = w1"
    | (c1) "out = VoteRecorded 1"
        "w2 = w1\<lparr>vote1 := vote1 w1 + 1, eeprom := (eeprom w1)(EEPROM_VOTE1 := ucast (vote1 w1 + 1))\<rparr>"
    | (c2) "out = VoteRecorded 2"
        "w2 = w1\<lparr>vote2 := vote2 w1 + 1, eeprom := (eeprom w1)(EEPROM_VOTE2 := ucast (vote2 w1 + 1))\<rparr>"
    | (c3) "out = VoteRecorded 3"
        "w2 = w1\<lparr>vote3 := vote3 w1 + 1, eeprom := (eeprom w1)(EEPROM_VOTE3 := ucast (vote3 w1 + 1))\<rparr>"
    by blast
  then have tally:
    "(selected presses = None \<longrightarrow> out = VoteTimeout \<and> eeprom w2 = eeprom w
             \<and> vote1 w2 = vote1 w \<and> vote2 w2 = vote2 w \<and> vote3 w2 = vote3 w)
         \<and> (selected presses = Some 1 \<longrightarrow> out = VoteRecorded 1
             \<and> eeprom w2 = (eeprom w)(EEPROM_VOTE1 := ucast (vote1 w + 1))
             \<and> vote1 w2 = vote1 w + 1 \<and> vote2 w2 = vote2 w \<and> vote3 w2 = vote3 w)
         \<and> (selected presses = Some 2 \<longrightarrow> out = VoteRecorded 2
             \<and> eeprom w2 = (eeprom w)(EEPROM_VOTE2 := ucast (vote2 w + 1))
             \<and> vote1 w2 = vote1 w \<and> vote2 w2 = vote2 w + 1 \<and> vote3 w2 = vote3 w)
         \<and> (selected presses = Some 3 \<longrightarrow> out = VoteRecorded 3
             \<and> eeprom w2 = (eeprom w)(EEPROM_VOTE3 := ucast (vote3 w + 1))
             \<and> vote1 w2 = vote1 w \<and> vote2 w2 = vote2 w \<and> vote3 w2 = vote3 w + 1)"
  proof cases
    case timeout
    with sel have "selected presses = None" by (cases "selected presses") simp_all
    with timeout frame show ?thesis by simp
  next
    case c1
    with sel have "selected presses = Some 1" by (cases "selected presses") simp_all
    with c1 frame show ?thesis by simp
  next
    case c2
    with sel have "selected presses = Some 2" by (cases "selected presses") simp_all
    with c2 frame show ?thesis by simp
  next
    case c3
    with sel have "selected presses = Some 3" by (cases "selected presses") simp_all
    with c3 frame show ?thesis by simp
  qed
  note range = selected_range [of presses]
  have "(let (out, w2) = castVote matchID presses w1 in
         (selected presses = None \<longrightarrow> out = VoteTimeout \<and> eeprom w2 = eeprom w
             \<and> vote1 w2 = vote1 w \<and> vote2 w2 = vote2 w \<and> vote3 w2 = vote3 w)
         \<and> (selected presses = Some 1 \<longrightarrow> out = VoteRecorded 1
             \<and> eeprom w2 = (eeprom w)(EEPROM_VOTE1 := ucast (vote1 w + 1))
             \<and> vote1 w2 = vote1 w + 1 \<and> vote2 w2 = vote2 w \<and> vote3 w2 = vote3 w)
         \<and> (selected presses = Some 2 \<longrightarrow> out = VoteRecorded 2
             \<and> eeprom w2 = (eeprom w)(EEPROM_VOTE2 := ucast (vote2 w + 1))
             \<and> vote1 w2 = vote1 w \<and> vote2 w2 = vote2 w + 1 \<and> vote3 w2 = vote3 w)
         \<and> (selected presses = Some 3 \<longrightarrow> out = VoteRecorded 3
             \<and> eeprom w2 = (eeprom w)(EEPROM_VOTE3 := ucast (vote3 w + 1))
             \<and> vote1 w2 = vote1 w \<and> vote2 w2 = vote2 w \<and> vote3 w2 = vote3 w + 1)
         \<and> selected presses \<in> {None, Some 1, Some 2, Some 3}
         \<and> (\<forall>i<MAX_FINGERPRINTS. eeprom w2 (EEPROM_VOTED_START + i) = eeprom w (EEPROM_VOTED_START + i))
         \<and> (\<forall>rest. \<not> alreadyVoted matchID 0 (eeprom (revote matchID rest w2))))"
    unfolding cv Let_def prod.case
    by (intro conjI allI impI; (rule again slots2 range | use tally in blast))
  with offered show ?thesis
    by (simp only: simp_thms)
qed

lemma sensor_match_matching14:
  "sensor_match (matching14 w) =
     Some (14, (matching14 w)\<lparr>commands := commands w @ [(GET_IMAGE, []), (IMAGE_TO_TZ, [1]),
                 (SEARCH, [0x01, 0x00, 0x00, 0x00, 0x7F])], nread := nread w + 3\<rparr>)"
  if "nread w = 0" for w
  using that
  by (simp add: sensor_match_def waitForFinger_def waitLoop_success word_sless_alt
      imageToTemplate_def call_sendCommand_def call_readResponse_def matching14_def ack_def
      found14_def Let_def)

theorem unregistered_match_votes_again_witness:
  "fst (verifyAndVote [\<lparr>cand1 = False, cand2 = False, cand3 = False\<rparr>,
                       \<lparr>cand1 = False, cand2 = True, cand3 = True\<rparr>] (matching14 voted_world))
     = VoteRecorded 2
   \<and> vote2 (snd (verifyAndVote [\<lparr>cand1 = False, cand2 = False, cand3 = False\<rparr>,
                       \<lparr>cand1 = False, cand2 = True, cand3 = True\<rparr>] (matching14 voted_world))) = 2
   \<and> eeprom (snd (verifyAndVote [\<lparr>cand1 = False, cand2 = False, cand3 = False\<rparr>,
                       \<lparr>cand1 = False, cand2 = True, cand3 = True\<rparr>] (matching14 voted_world)))
       = (eeprom voted_world)(EEPROM_VOTE2 := 2)
   \<and> \<not> alreadyVoted 14 0 (eeprom (snd (verifyAndVote
          [\<lparr>cand1 = False, cand2 = False, cand3 = False\<rparr>,
           \<lparr>cand1 = False, cand2 = True, cand3 = True\<rparr>] (matching14 voted_world))))"
proof -
  let ?w1 = "(matching14 voted_world)\<lparr>commands := [(GET_IMAGE, []), (IMAGE_TO_TZ, [1]),
          (SEARCH, [0x01, 0x00, 0x00, 0x00, 0x7F])], nread := 3\<rparr>"
  let ?presses = "[\<lparr>cand1 = False, cand2 = False, cand3 = False\<rparr>,
                   \<lparr>cand1 = False, cand2 = True, cand3 = True\<rparr>]"
  have m: "sensor_match (matching14 voted_world) = Some (14, ?w1)"
    using sensor_match_matching14 [of voted_world] by (simp add: voted_world_def)
  have unreg: "\<forall>i<MAX_FINGERPRINTS.
        ucast (eeprom (matching14 voted_world) (EEPROM_VOTED_START + i)) \<noteq> (14 :: cint)
        \<and> ucast (eeprom (matching14 voted_world) (EEPROM_VOTED_START + i)) \<noteq> ((14 :: cint) OR 0x80)"
    by (simp add: matching14_def voted_world_def)
  have sel: "selected ?presses = Some 2"
    by (simp add: selected_def)
  note t = unregistered_match_votes_again [OF m unreg, of ?presses]
  obtain o2 w2 where r: "verifyAndVote ?presses (matching14 voted_world) = (o2, w2)"
    by (cases "verifyAndVote ?presses (matching14 voted_world)")
  note t2 = t [THEN conjunct2, unfolded r Let_def prod.case]
  from t2 sel have rec: "o2 = VoteRecorded 2
      \<and> eeprom w2 = (eeprom (matching14 voted_world))(EEPROM_VOTE2 :=
            ucast (vote2 (matching14 voted_world) + 1))
      \<and> vote2 w2 = vote2 (matching14 voted_world) + 1"
    by blast
  from t2 have "\<not> alreadyVoted 14 0 (eeprom (revote 14 [] w2))"
    by blast
  then have again: "\<not> alreadyVoted 14 0 (eeprom w2)"
    by simp
  from rec have "o2 = VoteRecorded 2 \<and> eeprom w2 = (eeprom voted_world)(EEPROM_VOTE2 := 2)
      \<and> vote2 w2 = 2"
    by (simp add: matching14_def voted_world_def)
  with r again show ?thesis
    by (simp del: castVote.simps)
qed

section \<open>Properties of deleteByID\<close>

lemma getTemplateCount_frame:
  assumes "getTemplateCount w = (n, w')"
  shows "eeprom w' = eeprom w" "vote1 w' = vote1 w" "vote2 w' = vote2 w" "vote3 w' = vote3 w"
  using assms
  by (auto simp: getTemplateCount_def call_sendCommand_def call_readResponse_def Let_def
      split: if_splits)

lemma releaseLoop_cases:
  "releaseLoop id' i e = e
   \<or> (\<exists>j\<ge>i. j < MAX_FINGERPRINTS
        \<and> (ucast (e (EEPROM_VOTED_START + j)) = id' \<or> ucast (e (EEPROM_VOTED_START + j)) = (id' OR 0x80))
        \<and> (\<forall>k\<ge>i. k < j \<longrightarrow> ucast (e (EEPROM_VOTED_START + k)) \<noteq> id'
              \<and> ucast (e (EEPROM_VOTED_START + k)) \<noteq> (id' OR 0x80))
        \<and> releaseLoop id' i e = e(EEPROM_VOTED_START + j := 0xFF))"
proof (cases "\<exists>j\<ge>i. j < MAX_FINGERPRINTS
        \<and> (ucast (e (EEPROM_VOTED_START + j)) = id' \<or> ucast (e (EEPROM_VOTED_START + j)) = (id' OR 0x80))")
  case False
  then have "releaseLoop id' i e = e"
    by (intro releaseLoop_none) blast
  then show ?thesis ..
next
  case True
  define Q where "Q j \<longleftrightarrow> i \<le> j \<and> j < MAX_FINGERPRINTS
        \<and> (ucast (e (EEPROM_VOTED_START + j)) = id' \<or> ucast (e (EEPROM_VOTED_START + j)) = (id' OR 0x80))" for j
  from True have ex: "\<exists>j. Q j" by (simp add: Q_def)
  define j where "j = (LEAST j. Q j)"
  from ex have Qj: "Q j" unfolding j_def by (rule LeastI_ex)
  have least: "\<not> Q k" if "k < j" for k
    using that not_less_Least unfolding j_def by blast
  have before: "\<forall>k\<ge>i. k < j \<longrightarrow> ucast (e (EEPROM_VOTED_START + k)) \<noteq> id'
              \<and> ucast (e (EEPROM_VOTED_START + k)) \<noteq> (id' OR 0x80)"
  proof (intro allI impI)
    fix k assume "i \<le> k" "k < j"
    with least [of k] Qj show "ucast (e (EEPROM_VOTED_START + k)) \<noteq> id'
              \<and> ucast (e (EEPROM_VOTED_START + k)) \<noteq> (id' OR 0x80)"
      by (simp add: Q_def)
  qed
  from Qj have a: "i \<le> j" and b: "j < MAX_FINGERPRINTS"
    and c: "ucast (e (EEPROM_VOTED_START + j)) = id' \<or> ucast (e (EEPROM_VOTED_START + j)) = (id' OR 0x80)"
    by (simp_all add: Q_def)
  from releaseLoop_first [OF a b c before] a b c before show ?thesis by blast
qed

lemma deleteSelected_effect:
  assumes "deleteSelected id' w = (out, w')"
  shows "vote1 w' = vote1 w \<and> vote2 w' = vote2 w \<and> vote3 w' = vote3 w
    \<and> (if 12 \<le> length (replies w (nread w)) \<and> replies w (nread w) ! 9 = 0x00
        then out = Deleted id' \<and> eeprom w' = releaseLoop id' 0 (eeprom w)
        else out = DeleteFailed \<and> eeprom w' = eeprom w)"
proof -
  let ?w1 = "w\<lparr>commands := commands w @ [(DELETE_MODEL, [ucast (drop_bit 8 id'), ucast (id' AND 0xFF), 0x00, 0x01])],
      nread := nread w + 1\<rparr>"
  show ?thesis
  proof (cases "12 \<le> length (replies w (nread w)) \<and> replies w (nread w) ! 9 = 0x00")
    case True
    let ?w2 = "?w1\<lparr>eeprom := releaseLoop id' 0 (eeprom w)\<rparr>"
    obtain n w3 where g: "getTemplateCount ?w2 = (n, w3)" by (cases "getTemplateCount ?w2")
    from True g assms have "out = Deleted id'" and "w' = w3\<lparr>totalFingerprints := n\<rparr>"
      by (simp_all add: deleteSelected_def call_sendCommand_def call_readResponse_def Let_def)
    with getTemplateCount_frame [OF g] True show ?thesis by simp
  next
    case False
    obtain n w3 where g: "getTemplateCount ?w1 = (n, w3)" by (cases "getTemplateCount ?w1")
    from False g assms have "out = DeleteFailed" and "w' = w3\<lparr>totalFingerprints := n\<rparr>"
      by (auto simp add: deleteSelected_def call_sendCommand_def call_readResponse_def Let_def)
    with getTemplateCount_frame [OF g] False show ?thesis by simp
  qed
qed

text \<open>
  Claim C5. \<open>deleteByID\<close> never changes a tally. When the answer to the delete command is
  missing, shorter than 12 bytes or carries a non-zero confirmation code, the EEPROM, so
  every registry slot, is as before. A cell that does change is a registry slot that held the
  selected ID, with or without the voted bit, and now reads 0xFF, and the answer was a
  confirmation.
\<close>

theorem deleteByID_fail_closed:
  assumes "deleteByID buttons w = Some (out, w')"
  shows "vote1 w' = vote1 w \<and> vote2 w' = vote2 w \<and> vote3 w' = vote3 w
    \<and> (\<not> (12 \<le> length (replies w (nread w)) \<and> replies w (nread w) ! 9 = 0x00) \<longrightarrow>
         eeprom w' = eeprom w)
    \<and> (\<forall>a. eeprom w' a \<noteq> eeprom w a \<longrightarrow>
         12 \<le> length (replies w (nread w)) \<and> replies w (nread w) ! 9 = 0x00
         \<and> eeprom w' a = 0xFF
         \<and> (\<exists>id' i. deleteSelect 1 buttons = Some (Chosen id') \<and> i < MAX_FINGERPRINTS
               \<and> a = EEPROM_VOTED_START + i
               \<and> (ucast (eeprom w a) = id' \<or> ucast (eeprom w a) = (id' OR 0x80))))"
proof (cases "deleteSelect 1 buttons")
  case None
  with assms show ?thesis by (simp add: deleteByID_def)
next
  case (Some sel)
  show ?thesis
  proof (cases sel)
    case Cancelled
    with Some assms show ?thesis by (simp add: deleteByID_def)
  next
    case (Chosen id')
    with Some assms have d: "deleteSelected id' w = (out, w')"
      by (simp add: deleteByID_def)
    note eff = deleteSelected_effect [OF d]
    show ?thesis
    proof (cases "12 \<le> length (replies w (nread w)) \<and> replies w (nread w) ! 9 = 0x00")
      case False
      with eff show ?thesis by simp
    next
      case True
      with eff have e': "eeprom w' = releaseLoop id' 0 (eeprom w)" by simp
      from releaseLoop_cases [of id' 0 "eeprom w"]
      have "\<forall>a. eeprom w' a \<noteq> eeprom w a \<longrightarrow> eeprom w' a = 0xFF
         \<and> (\<exists>i. i < MAX_FINGERPRINTS \<and> a = EEPROM_VOTED_START + i
               \<and> (ucast (eeprom w a) = id' \<or> ucast (eeprom w a) = (id' OR 0x80)))"
        unfolding e' by (auto split: if_splits)
      with eff True Some Chosen show ?thesis by auto
    qed
  qed
qed


lemma deleteSelect_5:
  "deleteSelect 1 [press_up, press_up, press_up, press_up, press_delete] = Some (Chosen 5)"
  by (simp add: step_id_def press_up_def press_delete_def MAX_FINGERPRINTS_def word_sless_alt Let_def)

theorem deleteByID_fail_closed_witness:
  "deleteByID [press_up, press_up, press_up, press_up, press_delete] voted_world =
     Some (DeleteFailed,
           voted_world\<lparr>commands := [(DELETE_MODEL, [0x00, 0x05, 0x00, 0x01]), (GET_TEMPLATE_COUNT, [])],
                        nread := 2, totalFingerprints := 0\<rparr>)
   \<and> eeprom voted_world (EEPROM_VOTED_START + 0) = 0x85"
proof -
  have run: "deleteByID [press_up, press_up, press_up, press_up, press_delete] voted_world =
     Some (DeleteFailed,
           voted_world\<lparr>commands := [(DELETE_MODEL, [0x00, 0x05, 0x00, 0x01]), (GET_TEMPLATE_COUNT, [])],
                        nread := 2, totalFingerprints := 0\<rparr>)"
    unfolding deleteByID_def deleteSelect_5
    by (simp add: deleteSelected_def getTemplateCount_def call_sendCommand_def
        call_readResponse_def voted_world_def Let_def)
  have "\<not> (12 \<le> length (replies voted_world (nread voted_world))
      \<and> replies voted_world (nread voted_world) ! 9 = 0x00)"
    by (simp add: voted_world_def)
  with deleteByID_fail_closed [OF run]
  have "eeprom (voted_world\<lparr>commands := [(DELETE_MODEL, [0x00, 0x05, 0x00, 0x01]), (GET_TEMPLATE_COUNT, [])],
                        nread := 2, totalFingerprints := 0\<rparr>) = eeprom voted_world"
    by blast
  then have "eeprom voted_world (EEPROM_VOTED_START + 0) = 0x85"
    by (simp add: voted_world_def EEPROM_VOTED_START_def)
  with run show ?thesis by blast
qed

section \<open>Properties of the end of enrollFingerprint\<close>

lemma createModel_frame:
  assumes "createModel w = (r, w')"
  shows "eeprom w' = eeprom w" "vote1 w' = vote1 w" "vote2 w' = vote2 w" "vote3 w' = vote3 w"
  using assms
  by (auto simp: createModel_def call_sendCommand_def call_readResponse_def Let_def)

lemma storeModel_frame:
  assumes "storeModel id' w = (r, w')"
  shows "eeprom w' = eeprom w" "vote1 w' = vote1 w" "vote2 w' = vote2 w" "vote3 w' = vote3 w"
  using assms
  by (auto simp: storeModel_def call_sendCommand_def call_readResponse_def Let_def)

lemma enrollStore_effect:
  assumes "enrollStore id' w = (out, w')"
  shows "vote1 w' = vote1 w \<and> vote2 w' = vote2 w \<and> vote3 w' = vote3 w
    \<and> (if fst (createModel w) \<and> fst (storeModel id' (snd (createModel w)))
        then out = EnrollSuccess id' \<and> eeprom w' = allocateLoop id' 0 (eeprom w)
        else (out = Mismatch \<or> out = StoreFailed) \<and> eeprom w' = eeprom w)"
proof -
  obtain c w1 where c: "createModel w = (c, w1)" by (cases "createModel w")
  obtain s w2 where s: "storeModel id' w1 = (s, w2)" by (cases "storeModel id' w1")
  let ?w3 = "w2\<lparr>eeprom := allocateLoop id' 0 (eeprom w2)\<rparr>"
  obtain n w4 where g: "getTemplateCount ?w3 = (n, w4)" by (cases "getTemplateCount ?w3")
  note f1 = createModel_frame [OF c] and f2 = storeModel_frame [OF s]
    and f3 = getTemplateCount_frame [OF g]
  show ?thesis
  proof (cases c)
    case False
    with c assms have "out = Mismatch" "w' = w1" by (simp_all add: enrollStore_def)
    with False c f1 show ?thesis by simp
  next
    case True
    show ?thesis
    proof (cases s)
      case False
      with True c s assms have "out = StoreFailed" "w' = w2" by (simp_all add: enrollStore_def)
      with False True c s f1 f2 show ?thesis by simp
    next
      case sTrue: True
      with True c s g assms have "out = EnrollSuccess id'" "w' = w4\<lparr>totalFingerprints := n\<rparr>"
        by (simp_all add: enrollStore_def Let_def)
      with sTrue True c s f1 f2 f3 show ?thesis by simp
    qed
  qed
qed

text \<open>
  When each of the 25 slots is taken, the loop that ends a successful enrollment writes no
  slot, and the enrollment changes no EEPROM cell and no tally. Once the sensor has created and
  stored the model, the outcome is the one of an enrollment whose ID was written to a slot.
\<close>

lemma allocate_on_full_registry:
  assumes "\<forall>i<MAX_FINGERPRINTS. eeprom w (EEPROM_VOTED_START + i) \<noteq> 0xFF"
  shows "allocateLoop id' 0 (eeprom w) = eeprom w
    \<and> (let (out, w') = enrollStore id' w in
         eeprom w' = eeprom w \<and> vote1 w' = vote1 w \<and> vote2 w' = vote2 w \<and> vote3 w' = vote3 w
         \<and> (fst (createModel w) \<and> fst (storeModel id' (snd (createModel w))) \<longrightarrow>
              out = EnrollSuccess id'))"
proof -
  from assms have full: "allocateLoop id' 0 (eeprom w) = eeprom w"
    by (intro allocateLoop_full) simp
  obtain out w' where e: "enrollStore id' w = (out, w')" by (cases "enrollStore id' w")
  from enrollStore_effect [OF e] full
  have "eeprom w' = eeprom w \<and> vote1 w' = vote1 w \<and> vote2 w' = vote2 w \<and> vote3 w' = vote3 w
         \<and> (fst (createModel w) \<and> fst (storeModel id' (snd (createModel w))) \<longrightarrow>
              out = EnrollSuccess id')"
    by (simp split: if_splits)
  with full e show ?thesis by simp
qed

lemma empty_slot_iff:
  "0xFF \<in> set (slots e) \<longleftrightarrow> (\<exists>i<MAX_FINGERPRINTS. e (EEPROM_VOTED_START + i) = 0xFF)"
  by (auto simp: slots_def)

text \<open>
  Claim C7. The step performs no mutation, but it reports no failure. On a table whose 25
  slots are taken and none of which holds ID 14 (IDs 1 to 12 enrolled twice, ID 13 once), the
  operator chooses ID 14 and the sensor accepts both captures: the model is stored in the
  sensor under ID 14, no slot is written, and \<open>enrollFingerprint\<close> ends with "SUCCESS!", where
  every other step that fails shows an error and returns. ID 14 is then in no slot, so
  \<open>markAsVoted\<close> finds none to mark: three runs of \<open>verifyAndVote\<close> that match ID 14 record
  three votes.
\<close>

theorem enrollment_dropped_on_full_registry:
  "0xFF \<notin> set (slots (eeprom crowded_world))
   \<and> 14 \<notin> set (enrolled_ids (eeprom crowded_world))
   \<and> map_option fst (enrollFingerprint choose14 (enrolling crowded_world))
       = Some (EnrollSuccess 14)
   \<and> (STORE_MODEL, [0x01, 0x00, 0x0E])
       \<in> set (commands (after_enroll choose14 (enrolling crowded_world)))
   \<and> slots (eeprom (after_enroll choose14 (enrolling crowded_world)))
       = slots (eeprom crowded_world)
   \<and> vote1 (after_enroll choose14 (enrolling crowded_world)) = 0
   \<and> fst (vote_rounds [press1, press1, press1]
            (finding14 (after_enroll choose14 (enrolling crowded_world))))
       = [VoteRecorded 1, VoteRecorded 1, VoteRecorded 1]
   \<and> vote1 (snd (vote_rounds [press1, press1, press1]
            (finding14 (after_enroll choose14 (enrolling crowded_world))))) = 3"
  by code_simp

section \<open>Uniqueness of the IDs in the registry\<close>

lemma x7F_mask: "(0x7F :: byte) = mask 7"
  by (simp add: mask_eq_exp_minus_1)

lemma small_byte:
  assumes "unat (v :: byte) \<le> 25"
  shows "v AND 0x7F = v" and "v \<noteq> 0xFF"
proof -
  from assms have "v < 2 ^ 7" by (simp add: word_less_nat_alt)
  then show "v AND 0x7F = v" unfolding x7F_mask by (rule less_mask_eq)
  from assms show "v \<noteq> 0xFF" by auto
qed

lemma small_id:
  assumes "unat (id' :: cint) \<le> 25"
  shows "(ucast id' :: byte) AND 0x7F = ucast id'" and "(ucast id' :: byte) \<noteq> 0xFF"
proof -
  have "unat (ucast id' :: byte) = take_bit 8 (unat id')"
    by (simp add: unsigned_ucast_eq)
  also from assms have "\<dots> = unat id'" by (simp add: take_bit_nat_eq_self)
  finally have "unat (ucast id' :: byte) \<le> 25" using assms by simp
  then show "(ucast id' :: byte) AND 0x7F = ucast id'" and "(ucast id' :: byte) \<noteq> 0xFF"
    by (rule small_byte)+
qed

lemma length_slots: "length (slots e) = MAX_FINGERPRINTS"
  by (simp add: slots_def)

lemma nth_slots: "i < MAX_FINGERPRINTS \<Longrightarrow> slots e ! i = e (EEPROM_VOTED_START + i)"
  by (simp add: slots_def)

lemma slots_update:
  "j < MAX_FINGERPRINTS \<Longrightarrow> slots (e(EEPROM_VOTED_START + j := v)) = (slots e)[j := v]"
  by (rule nth_equalityI) (auto simp: slots_def)

lemma ids_after_store:
  assumes "j < length xs" and "xs ! j = 0xFF" and "v \<noteq> 0xFF"
  shows "distinct (map f (filter (\<lambda>x. x \<noteq> (0xFF :: byte)) (xs[j := v]))) \<longleftrightarrow>
     distinct (map f (filter (\<lambda>x. x \<noteq> 0xFF) xs)) \<and> f v \<notin> set (map f (filter (\<lambda>x. x \<noteq> 0xFF) xs))"
proof -
  from assms(1) have a: "xs[j := v] = take j xs @ v # drop (Suc j) xs"
    by (rule upd_conv_take_nth_drop)
  from assms(1,2) have b: "xs = take j xs @ 0xFF # drop (Suc j) xs"
    by (metis id_take_nth_drop)
  have "filter (\<lambda>x. x \<noteq> 0xFF) xs
      = filter (\<lambda>x. x \<noteq> 0xFF) (take j xs) @ filter (\<lambda>x. x \<noteq> 0xFF) (drop (Suc j) xs)"
    by (subst b) simp
  moreover have "filter (\<lambda>x. x \<noteq> 0xFF) (xs[j := v])
      = filter (\<lambda>x. x \<noteq> 0xFF) (take j xs) @ v # filter (\<lambda>x. x \<noteq> 0xFF) (drop (Suc j) xs)"
    using assms(3) by (simp add: a)
  ultimately show ?thesis by auto
qed

lemma ids_after_clear:
  assumes "distinct (map f (filter (\<lambda>x. x \<noteq> (0xFF :: byte)) xs))"
  shows "distinct (map f (filter (\<lambda>x. x \<noteq> 0xFF) (xs[j := 0xFF])))"
proof (cases "j < length xs")
  case False
  then have "xs[j := 0xFF] = xs" by (simp add: list_update_beyond)
  with assms show ?thesis by (simp only:)
next
  case True
  then have a: "xs[j := 0xFF] = take j xs @ 0xFF # drop (Suc j) xs"
    by (rule upd_conv_take_nth_drop)
  from True have b: "xs = take j xs @ xs ! j # drop (Suc j) xs"
    by (rule id_take_nth_drop)
  have "distinct (map f (filter (\<lambda>x. x \<noteq> 0xFF) (take j xs @ xs ! j # drop (Suc j) xs)))"
    using assms b by simp
  then have "distinct (map f (filter (\<lambda>x. x \<noteq> 0xFF) (take j xs @ 0xFF # drop (Suc j) xs)))"
    by (auto split: if_splits)
  then show ?thesis by (simp only: a)
qed

lemma allocateLoop_cases:
  "allocateLoop id' i e = e
   \<or> (\<exists>j\<ge>i. j < MAX_FINGERPRINTS \<and> e (EEPROM_VOTED_START + j) = 0xFF
        \<and> allocateLoop id' i e = e(EEPROM_VOTED_START + j := ucast id'))"
proof (cases "\<exists>j\<ge>i. j < MAX_FINGERPRINTS \<and> e (EEPROM_VOTED_START + j) = 0xFF")
  case False
  then have "allocateLoop id' i e = e"
    by (intro allocateLoop_full) blast
  then show ?thesis ..
next
  case True
  define Q where "Q j \<longleftrightarrow> i \<le> j \<and> j < MAX_FINGERPRINTS \<and> e (EEPROM_VOTED_START + j) = 0xFF" for j
  from True have ex: "\<exists>j. Q j" by (simp add: Q_def)
  define j where "j = (LEAST j. Q j)"
  from ex have Qj: "Q j" unfolding j_def by (rule LeastI_ex)
  have least: "\<not> Q k" if "k < j" for k
    using that not_less_Least unfolding j_def by blast
  have before: "\<forall>k\<ge>i. k < j \<longrightarrow> e (EEPROM_VOTED_START + k) \<noteq> 0xFF"
  proof (intro allI impI)
    fix k assume "i \<le> k" "k < j"
    with least [of k] Qj show "e (EEPROM_VOTED_START + k) \<noteq> 0xFF"
      by (simp add: Q_def)
  qed
  from Qj have a: "i \<le> j" and b: "j < MAX_FINGERPRINTS" and c: "e (EEPROM_VOTED_START + j) = 0xFF"
    by (simp_all add: Q_def)
  from allocateLoop_first [OF a b c before] a b c show ?thesis by blast
qed

lemma allocate_unique:
  assumes u: "unique_ids e" and r: "1 \<le> unat id'" "unat id' \<le> 25"
    and f: "ucast id' \<notin> set (enrolled_ids e)"
  shows "unique_ids (allocateLoop id' 0 e)"
proof -
  from allocateLoop_cases [of id' 0 e] show ?thesis
  proof
    assume "allocateLoop id' 0 e = e"
    with u show ?thesis by simp
  next
    assume "\<exists>j\<ge>0. j < MAX_FINGERPRINTS \<and> e (EEPROM_VOTED_START + j) = 0xFF
        \<and> allocateLoop id' 0 e = e(EEPROM_VOTED_START + j := ucast id')"
    then obtain j where j: "j < MAX_FINGERPRINTS" and emp: "e (EEPROM_VOTED_START + j) = 0xFF"
      and res: "allocateLoop id' 0 e = e(EEPROM_VOTED_START + j := ucast id')"
      by blast
    note sm = small_id [OF r(2)]
    from j have "j < length (slots e)" by (simp add: length_slots)
    moreover from j emp have "slots e ! j = 0xFF" by (simp add: nth_slots)
    ultimately have "distinct (map (\<lambda>v. v AND 0x7F) (filter (\<lambda>x. x \<noteq> 0xFF) ((slots e)[j := ucast id'])))"
      using u f sm by (simp add: ids_after_store unique_ids_def enrolled_ids_def)
    with j res show ?thesis
      by (simp add: unique_ids_def enrolled_ids_def slots_update)
  qed
qed

lemma release_unique:
  assumes u: "unique_ids e"
  shows "unique_ids (releaseLoop id' 0 e)"
proof -
  from releaseLoop_cases [of id' 0 e] show ?thesis
  proof
    assume "releaseLoop id' 0 e = e"
    with u show ?thesis by simp
  next
    assume "\<exists>j\<ge>0. j < MAX_FINGERPRINTS
        \<and> (ucast (e (EEPROM_VOTED_START + j)) = id' \<or> ucast (e (EEPROM_VOTED_START + j)) = (id' OR 0x80))
        \<and> (\<forall>k\<ge>0. k < j \<longrightarrow> ucast (e (EEPROM_VOTED_START + k)) \<noteq> id'
              \<and> ucast (e (EEPROM_VOTED_START + k)) \<noteq> (id' OR 0x80))
        \<and> releaseLoop id' 0 e = e(EEPROM_VOTED_START + j := 0xFF)"
    then obtain j where j: "j < MAX_FINGERPRINTS"
      and res: "releaseLoop id' 0 e = e(EEPROM_VOTED_START + j := 0xFF)"
      by blast
    from u have "distinct (map (\<lambda>v. v AND 0x7F) (filter (\<lambda>x. x \<noteq> 0xFF) ((slots e)[j := 0xFF])))"
      unfolding unique_ids_def enrolled_ids_def by (rule ids_after_clear)
    with j res show ?thesis
      by (simp add: unique_ids_def enrolled_ids_def slots_update)
  qed
qed

lemma run_ops_unique:
  "unique_ids e \<Longrightarrow> fresh_run ops e \<Longrightarrow> unique_ids (run_ops ops e)"
proof (induction ops arbitrary: e)
  case Nil
  then show ?case by (simp add: run_ops_def)
next
  case (Cons op ops)
  show ?case
  proof (cases op)
    case (Allocate id')
    with Cons.prems have "unique_ids (allocateLoop id' 0 e)"
      by (intro allocate_unique) simp_all
    moreover from Allocate Cons.prems have "fresh_run ops (allocateLoop id' 0 e)" by simp
    ultimately have "unique_ids (run_ops ops (allocateLoop id' 0 e))" by (rule Cons.IH)
    with Allocate show ?thesis by (simp add: run_ops_def)
  next
    case (Release id')
    from Cons.prems have "unique_ids (releaseLoop id' 0 e)"
      by (intro release_unique)
    moreover from Release Cons.prems have "fresh_run ops (releaseLoop id' 0 e)" by simp
    ultimately have "unique_ids (run_ops ops (releaseLoop id' 0 e))" by (rule Cons.IH)
    with Release show ?thesis by (simp add: run_ops_def)
  qed
qed

lemma empty_registry_unique:
  assumes "\<forall>i<MAX_FINGERPRINTS. e (EEPROM_VOTED_START + i) = 0xFF"
  shows "unique_ids e"
proof -
  from assms have "filter (\<lambda>x. x \<noteq> 0xFF) (slots e) = []"
    by (auto simp: slots_def filter_empty_conv)
  then show ?thesis by (simp add: unique_ids_def enrolled_ids_def)
qed

text \<open>
  Start from a registry whose 25 slots are Empty and run any sequence of \<open>allocate\<close> and
  \<open>release\<close> in which every \<open>allocate\<close> is for an ID from 1 to 25 that no slot holds at that
  moment. Then no two slots that are not Empty hold the same ID, the voted bit left aside.
  Nothing in the sketch checks that condition.
\<close>

lemma registry_unique_for_fresh_ids:
  assumes "\<forall>i<MAX_FINGERPRINTS. e (EEPROM_VOTED_START + i) = 0xFF" and "fresh_run ops e"
  shows "unique_ids (run_ops ops e)"
  using assms by (intro run_ops_unique empty_registry_unique)

text \<open>
  Claim C2. The loop that stores an ID looks for a free slot only, not for a slot that holds
  the ID already, and the selection offers every ID from 1 to 25 whether enrolled or not. On an
  erased device two runs of \<open>enrollFingerprint\<close> with ID 5 chosen both end with "SUCCESS!" and
  leave ID 5 in slots 0 and 1. The loop of \<open>deleteByID\<close> stops at the first match: after
  "Deleted ID 5" slot 1 still holds ID 5.
\<close>

theorem duplicate_enrollment_survives_deletion:
  "enrolled_ids (run_ops [Allocate 5, Allocate 5] (eeprom factory_world)) = [5, 5]
   \<and> \<not> unique_ids (run_ops [Allocate 5, Allocate 5] (eeprom factory_world))
   \<and> enrolled_ids (run_ops [Allocate 5, Allocate 5, Release 5] (eeprom factory_world)) = [5]
   \<and> map_option fst (enrollFingerprint choose5 (after_enroll choose5 (enrolling factory_world)))
       = Some (EnrollSuccess 5)
   \<and> take 3 (slots (eeprom enrolled_twice)) = [5, 5, 0xFF]
   \<and> \<not> unique_ids (eeprom enrolled_twice)
   \<and> map_option fst (deleteByID delete5 enrolled_twice) = Some (Deleted 5)
   \<and> take 3 (slots (eeprom (after_delete delete5 enrolled_twice))) = [0xFF, 5, 0xFF]"
  by code_simp

end
